theory Spec2Isabelle
  imports Main
begin

section \<open>Common result types\<close>

text \<open>
  Go errors are values; \<open>errors.Errorf\<close> and \<open>errors.Wrapf\<close> build them from a message.
  A function returning \<open>error\<close> is modelled as returning \<open>error option\<close> (\<open>None\<close> is
  \<open>nil\<close>). A run-time panic (a failed type assertion, an index out of range) is not an
  error value: it unwinds the goroutine, so it is a separate outcome.
\<close>

datatype error = Errorf string | Wrapf error string

datatype 'a outcome = Panic | Ret 'a

section \<open>Progress bus (util/progress/progress.go)\<close>

text \<open>
  \<open>Timestamp\<close> is a \<open>time.Time\<close>; the zero time is \<open>0\<close>. Events are stored behind
  pointers (\<open>*Progress\<close>) and a reader compares pointers, so each stored event carries
  the address it was allocated at.
\<close>

record Progress =
  ID :: string
  Message :: string
  Action :: string
  Current :: int
  Total :: int
  Timestamp :: nat
  Done :: bool

type_synonym ptr = nat

text \<open>
  \<open>progressWriter\<close>: \<open>lastP\<close> is the atomic value (\<open>None\<close> before the first
  \<open>Store\<close>). The \<open>reader\<close> field is the one reader of the pipe the writer descends
  from; it is the \<open>reader\<close> of the \<open>bus\<close> below.
\<close>

record progressWriter =
  id_w :: string
  lastP :: "(ptr \<times> Progress) option"
  done_w :: bool

definition pw_Write :: "ptr \<Rightarrow> nat \<Rightarrow> progressWriter \<Rightarrow> Progress \<Rightarrow> error option \<times> progressWriter" where
  "pw_Write a now w p =
     (if done_w w then (Some (Errorf (''writing to closed progresswriter '' @ id_w w)), w)
      else
        let p1 = p\<lparr>ID := id_w w\<rparr>;
            p2 = (if Timestamp p1 = 0 then p1\<lparr>Timestamp := now\<rparr> else p1);
            w1 = w\<lparr>lastP := Some (a, p2)\<rparr>;
            w2 = (if Done p2 then w1\<lparr>done_w := True\<rparr> else w1)
        in (None, w2))"

text \<open>
  \<open>Done\<close> starts with \<open>pw.lastP.Load().(*Progress)\<close>: \<open>Load\<close> returns the nil interface
  when nothing was stored, and a single-value type assertion on a nil interface panics.
  The \<open>else\<close> branch of the source (\<open>p = Progress{}\<close>) is therefore never reached.
\<close>

definition pw_Done :: "ptr \<Rightarrow> nat \<Rightarrow> progressWriter \<Rightarrow> (error option \<times> progressWriter) outcome" where
  "pw_Done a now w =
     (case lastP w of
        None \<Rightarrow> Panic
      | Some (_, lp) \<Rightarrow>
          if Done lp then Ret (None, w)
          else Ret (pw_Write a now w (lp\<lparr>Done := True\<rparr>)))"

record streamHandle =
  pw :: nat
  sh_lastP :: "(ptr \<times> Progress) option"

record progressReader =
  ctx_done :: bool
  handles :: "streamHandle list"

text \<open>
  The bus: the reader of a pipe, the writers created on it (by address), the allocator of
  event addresses and the clock read by \<open>time.Now\<close>.
\<close>

record bus =
  reader :: progressReader
  writers :: "nat \<rightharpoonup> progressWriter"
  next_writer :: nat
  next_ptr :: ptr
  clock :: nat

definition append_handle :: "progressReader \<Rightarrow> nat \<Rightarrow> progressReader" where
  "append_handle pr w =
     (if ctx_done pr then pr
      else pr\<lparr>handles := handles pr @ [\<lparr>pw = w, sh_lastP = None\<rparr>]\<rparr>)"

definition newWriter :: "progressWriter \<Rightarrow> string \<Rightarrow> bus \<Rightarrow> nat \<times> bus" where
  "newWriter par name b =
     (let name' = (if id_w par \<noteq> [] then id_w par @ ''.'' @ name else name);
          w = \<lparr>id_w = name', lastP = None, done_w = False\<rparr>;
          i = next_writer b
      in (i, b\<lparr>writers := (writers b)(i \<mapsto> w), next_writer := Suc i,
               reader := append_handle (reader b) i\<rparr>))"

text \<open>
  \<open>streamHandle.next\<close>: the writer's last event when its pointer differs from the one
  this handle saw last. A handle holds a pointer to its writer, so the writer exists; a
  handle of the model that names no writer has nothing to report.
\<close>

definition next_sh :: "(nat \<rightharpoonup> progressWriter) \<Rightarrow> streamHandle \<Rightarrow> Progress option \<times> streamHandle" where
  "next_sh ws sh =
     (case ws (pw sh) of
        None \<Rightarrow> (None, sh)
      | Some w \<Rightarrow>
          (case lastP w of
             None \<Rightarrow> (None, sh)
           | Some (a, p) \<Rightarrow>
               if map_option fst (sh_lastP sh) \<noteq> Some a
               then (Some p, sh\<lparr>sh_lastP := Some (a, p)\<rparr>)
               else (None, sh)))"

text \<open>
  The \<open>for _, sh := range pr.handles\<close> loop of \<open>Read\<close>: the first handle with news ends
  the loop; otherwise \<open>open\<close> records whether some handle is not done yet. The event is
  returned with the address of the writer it comes from.
\<close>

fun scan :: "(nat \<rightharpoonup> progressWriter) \<Rightarrow> streamHandle list \<Rightarrow> bool
               \<Rightarrow> (nat \<times> Progress) option \<times> streamHandle list \<times> bool" where
  "scan ws [] opn = (None, [], opn)"
| "scan ws (sh # rest) opn =
     (case next_sh ws sh of
        (Some p, sh') \<Rightarrow> (Some (pw sh, p), sh' # rest, opn)
      | (None, _) \<Rightarrow>
          (let opn' = (opn \<or> (case sh_lastP sh of None \<Rightarrow> True | Some (_, l) \<Rightarrow> \<not> Done l))
           in case scan ws rest opn' of (r, rest', o') \<Rightarrow> (r, sh # rest', o')))"

datatype read_result = Event nat Progress | EOF | Cancelled | Wait

text \<open>
  One round of the \<open>for\<close> loop of \<open>Read\<close>, up to the point where it returns or blocks in
  \<open>cond.Wait\<close>; a blocked reader runs the next round when it is woken.
\<close>

definition Read_round :: "bool \<Rightarrow> bus \<Rightarrow> read_result \<times> bus" where
  "Read_round caller_done b =
     (if caller_done then (Cancelled, b)
      else case scan (writers b) (handles (reader b)) False of
        (Some (i, p), hs, _) \<Rightarrow> (Event i p, b\<lparr>reader := (reader b)\<lparr>handles := hs\<rparr>\<rparr>)
      | (None, hs, opn) \<Rightarrow>
          (if ctx_done (reader b) \<and> \<not> opn then EOF else Wait,
           b\<lparr>reader := (reader b)\<lparr>handles := hs\<rparr>\<rparr>))"

text \<open>
  What can happen on a bus, one call at a time (each call runs under the reader's mutex
  or on one writer): a write or \<open>Done\<close> on a writer, a new child writer, a round of
  \<open>Read\<close>, and the cancellation of the pipe's context. \<open>run\<close> collects what the reader
  returns; a panic ends the process.
\<close>

datatype action =
    AWrite nat Progress
  | ADone nat
  | ANewWriter nat string
  | ARead bool
  | ACancel

fun step :: "action \<Rightarrow> bus \<Rightarrow> (bus \<times> (nat \<times> Progress) list) outcome" where
  "step (AWrite i p) b =
     (case writers b i of
        None \<Rightarrow> Ret (b, [])
      | Some w \<Rightarrow>
          (case pw_Write (next_ptr b) (Suc (clock b)) w p of
             (_, w') \<Rightarrow> Ret (b\<lparr>writers := (writers b)(i \<mapsto> w'), next_ptr := Suc (next_ptr b),
                               clock := Suc (clock b)\<rparr>, [])))"
| "step (ADone i) b =
     (case writers b i of
        None \<Rightarrow> Ret (b, [])
      | Some w \<Rightarrow>
          (case pw_Done (next_ptr b) (Suc (clock b)) w of
             Panic \<Rightarrow> Panic
           | Ret (_, w') \<Rightarrow> Ret (b\<lparr>writers := (writers b)(i \<mapsto> w'), next_ptr := Suc (next_ptr b),
                                   clock := Suc (clock b)\<rparr>, [])))"
| "step (ANewWriter i name) b =
     (case writers b i of
        None \<Rightarrow> Ret (b, [])
      | Some w \<Rightarrow> Ret (snd (newWriter w name b), []))"
| "step (ARead caller_done) b =
     (case Read_round caller_done b of
        (Event i p, b') \<Rightarrow> Ret (b', [(i, p)])
      | (_, b') \<Rightarrow> Ret (b', []))"
| "step ACancel b = Ret (b\<lparr>reader := (reader b)\<lparr>ctx_done := True\<rparr>\<rparr>, [])"

fun run :: "action list \<Rightarrow> bus \<Rightarrow> (nat \<times> Progress) list" where
  "run [] b = []"
| "run (a # as) b =
     (case step a b of
        Panic \<Rightarrow> []
      | Ret (b', obs) \<Rightarrow> obs @ run as b')"

text \<open>Every handle of the reader names a writer that was allocated.\<close>

definition handles_allocated :: "bus \<Rightarrow> bool" where
  "handles_allocated b = list_all (\<lambda>sh. pw sh < next_writer b) (handles (reader b))"

text \<open>The reader is closed and no handle of it names writer \<open>w\<close>.\<close>

definition closed_without :: "nat \<Rightarrow> bus \<Rightarrow> bool" where
  "closed_without w b = (ctx_done (reader b) \<and> w \<notin> pw ` set (handles (reader b)))"

section \<open>The vertex graph (solver/solver.go, solver/jobs.go)\<close>

text \<open>
  Modelled from the spec: the types of package \<open>pb\<close> are not in the sources. An
  operation is a source op (an identifier string) or an exec op (process metadata and an
  ordered list of mounts, each with an input index, a destination path, a read-only flag
  and an output index or the sentinel "skip"), with inputs that are (digest, output-index)
  pairs; \<open>Op_None\<close> is an op with neither body, as the return op of the client. The field
  names are those the solver reads (\<open>op.Inputs\<close>, \<open>input.Digest\<close>, \<open>input.Index\<close>,
  \<open>m.Input\<close>, \<open>m.Dest\<close>, \<open>m.Output\<close>, \<open>op.Exec.Meta.Args\<close>). \<open>SkipOutput\<close> is the
  sentinel of the client, \<open>-1\<close> in \<open>runExecOp\<close>.
\<close>

type_synonym digest = string

record Input =
  Digest :: digest
  Index :: int

record Mount =
  m_Input :: int
  Dest :: string
  Readonly :: bool
  Output :: int

record Meta =
  Args :: "string list"
  Env :: "string list"
  Cwd :: string

datatype op_body = Op_Source string | Op_Exec Meta "Mount list" | Op_None

record Op =
  body :: op_body
  Inputs :: "Input list"

definition SkipOutput :: int where
  "SkipOutput = -1"

text \<open>
  An \<open>opVertex\<close> is reached through pointers and several paths may share one vertex.
  What \<open>Load\<close> fixes (\<open>op\<close>, \<open>dgst\<close>, \<open>inputs\<close>) never changes afterwards and is the
  tree below, each node with the address of its vertex; what \<open>solve\<close> mutates (\<open>refs\<close>,
  \<open>err\<close>, \<open>vtx\<close>) is kept per address in \<open>vertex_state\<close>, so that a vertex reached
  twice is one vertex.
\<close>

datatype opVertex = OpVertex (addr: nat) (op: Op) (dgst: digest) (inputs: "opVertex list")

subsection \<open>The initial status walk\<close>

text \<open>
  \<open>walk\<close>: \<open>send\<close> recurses into the inputs first, then puts the vertex on the
  channel unless its digest is in \<open>cache\<close>. The state is the cache and what has been
  sent on the channel so far.
\<close>

fun send :: "opVertex \<Rightarrow> digest set \<times> opVertex list \<Rightarrow> digest set \<times> opVertex list" where
  "send (OpVertex a o' d ins) st =
     (case fold send ins st of
        (cache, ch) \<Rightarrow>
          if d \<notin> cache then (insert d cache, ch @ [OpVertex a o' d ins])
          else (cache, ch))"

definition walk :: "opVertex \<Rightarrow> opVertex list" where
  "walk g = snd (send g ({}, []))"

text \<open>
  The first loop of \<open>job.pipe\<close>: one \<open>SolveStatus\<close> per vertex received from \<open>walk\<close>,
  holding the pointer \<open>&v.vtx\<close> (the address of the vertex; \<open>client.SolveStatus\<close> is
  not in the sources, its one field used here is the list \<open>Vertexes\<close>). Each send is a
  \<open>select\<close> against \<open>ctx.Done()\<close>; \<open>cancelled_at = Some n\<close> says that the subscriber's
  context wins at the \<open>n\<close>-th message, and \<open>pipe\<close> returns \<open>ctx.Err()\<close> there.
\<close>

record SolveStatus =
  Vertexes :: "nat list"

definition status_of :: "opVertex \<Rightarrow> SolveStatus" where
  "status_of v = \<lparr>Vertexes = [addr v]\<rparr>"

definition pipe_initial :: "nat option \<Rightarrow> opVertex \<Rightarrow> error option \<times> SolveStatus list" where
  "pipe_initial cancelled_at g =
     (case cancelled_at of
        None \<Rightarrow> (None, map status_of (walk g))
      | Some n \<Rightarrow>
          if n < length (walk g) then (Some (Errorf ''context canceled''), map status_of (take n (walk g)))
          else (None, map status_of (walk g)))"

text \<open>All vertices of the graph under a vertex, itself included.\<close>

fun vertices :: "opVertex \<Rightarrow> opVertex set" where
  "vertices (OpVertex a o' d ins) = insert (OpVertex a o' d ins) (\<Union> (vertices ` set ins))"

text \<open>
  Post-order on the channel: the digest of every input of a sent vertex was sent at an
  earlier position.
\<close>

definition inputs_first :: "opVertex list \<Rightarrow> bool" where
  "inputs_first ch =
     (\<forall>i < length ch. \<forall>u \<in> set (inputs (ch ! i)). \<exists>j < i. dgst (ch ! j) = dgst u)"

text \<open>
  The invariant of the walk: the cache holds the digests sent so far, each once, inputs
  first; and what one \<open>send\<close> adds to it.
\<close>

definition walk_inv :: "digest set \<times> opVertex list \<Rightarrow> bool" where
  "walk_inv st = (fst st = dgst ` set (snd st) \<and> distinct (map dgst (snd st)) \<and> inputs_first (snd st))"

definition send_ok :: "opVertex \<Rightarrow> digest set \<times> opVertex list \<Rightarrow> bool" where
  "send_ok v st =
     (walk_inv st \<longrightarrow>
        walk_inv (send v st) \<and> (\<exists>new. snd (send v st) = snd st @ new \<and> set new \<subseteq> vertices v)
        \<and> fst (send v st) = fst st \<union> dgst ` vertices v)"

subsection \<open>The collaborators of the solver\<close>

text \<open>
  An \<open>ImmutableRef\<close> is an interface value and may be nil (\<open>None\<close>):
  \<open>getInputRefForIndex\<close> returns nil when no input has the digest. The collaborators
  return non-nil values with a nil error.
\<close>

type_synonym ImmutableRef = "nat option"

type_synonym MutableRef = nat

datatype Mountable = MountImmutable ImmutableRef | MountMutable MutableRef

record Identifier =
  id_scheme :: string
  id_ref :: string

text \<open>
  Modelled from the spec: \<open>client.Vertex\<close> is not in the sources; the status messages
  carry vertex snapshots with \<open>{digest, name, inputs, started?, completed?}\<close>. The solver
  writes \<open>Started\<close> and \<open>Completed\<close>.
\<close>

record Vertex =
  v_Digest :: digest
  v_Name :: string
  v_Inputs :: "digest list"
  Started :: "nat option"
  Completed :: "nat option"

record vertex_state =
  refs :: "ImmutableRef list"
  err :: "error option"
  vtx :: Vertex

text \<open>
  Every call to a collaborator is recorded with its result; \<open>Started\<close> and \<open>Completed\<close>
  are the two lifecycle notifications.
\<close>

datatype event =
    EvPull Identifier "error + nat"
  | EvNew ImmutableRef "error + MutableRef"
  | EvExec Meta "error option"
  | EvCommit MutableRef "error + nat"
  | EvFreeze MutableRef "error + nat"
  | EvRelease ImmutableRef "error option"
  | EvStarted digest
  | EvCompleted digest

text \<open>
  The state the solver works on: the mutable part of every vertex by address, the job
  list of the \<open>Solver\<close>, the calls made so far and their number.
\<close>

record world =
  vstate :: "nat \<Rightarrow> vertex_state"
  jobs :: "string \<rightharpoonup> opVertex"
  trace :: "event list"
  calls :: nat

text \<open>
  The collaborators, which are not part of the solver: \<open>source.FromString\<close>, the
  registered sources of the \<open>source.Manager\<close>, \<open>cache.Manager.New\<close>, \<open>worker.Exec\<close>, the
  methods of the refs and the clock. What a call returns may depend on its arguments and
  on how many calls came before it, so that the same call can succeed once and fail
  later.
\<close>

record env =
  FromString :: "string \<Rightarrow> error + Identifier"
  sources :: "string \<rightharpoonup> (nat \<Rightarrow> Identifier \<Rightarrow> error + nat)"
  cm_New :: "nat \<Rightarrow> ImmutableRef \<Rightarrow> error + MutableRef"
  w_Exec :: "nat \<Rightarrow> Meta \<Rightarrow> (string \<rightharpoonup> Mountable) \<Rightarrow> error option"
  ReleaseAndCommit :: "nat \<Rightarrow> MutableRef \<Rightarrow> error + nat"
  Freeze :: "nat \<Rightarrow> MutableRef \<Rightarrow> error + nat"
  Release :: "nat \<Rightarrow> ImmutableRef \<Rightarrow> error option"
  Now :: "nat \<Rightarrow> nat"

definition called :: "event \<Rightarrow> world \<Rightarrow> world" where
  "called e w = w\<lparr>trace := trace w @ [e], calls := Suc (calls w)\<rparr>"

definition set_refs :: "nat \<Rightarrow> ImmutableRef list \<Rightarrow> world \<Rightarrow> world" where
  "set_refs a rs w = w\<lparr>vstate := (vstate w)(a := (vstate w a)\<lparr>refs := rs\<rparr>)\<rparr>"

definition set_err :: "nat \<Rightarrow> error \<Rightarrow> world \<Rightarrow> world" where
  "set_err a e w = w\<lparr>vstate := (vstate w)(a := (vstate w a)\<lparr>err := Some e\<rparr>)\<rparr>"

subsection \<open>source.Manager.Pull (source/manager.go)\<close>

definition sm_Pull :: "env \<Rightarrow> Identifier \<Rightarrow> world \<Rightarrow> (error + nat) \<times> world" where
  "sm_Pull E ident w =
     (case sources E (id_scheme ident) of
        None \<Rightarrow> (Inl (Errorf (''no handler fro '' @ id_scheme ident)), w)
      | Some src \<Rightarrow> (let r = src (calls w) ident in (r, called (EvPull ident r) w)))"

subsection \<open>opVertex.solve and its helpers (solver/solver.go)\<close>

definition runSourceOp :: "env \<Rightarrow> nat \<Rightarrow> string \<Rightarrow> world \<Rightarrow> error option \<times> world" where
  "runSourceOp E a identifier w =
     (case FromString E identifier of
        Inl e \<Rightarrow> (Some e, w)
      | Inr ident \<Rightarrow>
          (case sm_Pull E ident w of
             (Inl e, w1) \<Rightarrow> (Some e, w1)
           | (Inr r, w1) \<Rightarrow> (None, set_refs a [Some r] w1)))"

text \<open>
  \<open>getInputRefForIndex\<close>: \<open>g.op.Inputs[i]\<close> and \<open>v.refs[input.Index]\<close> panic out of
  range; the first input vertex with the digest decides.
\<close>

definition getInputRefForIndex :: "world \<Rightarrow> opVertex \<Rightarrow> int \<Rightarrow> ImmutableRef outcome" where
  "getInputRefForIndex w g i =
     (if i < 0 \<or> int (length (Inputs (op g))) \<le> i then Panic
      else
        let inp = Inputs (op g) ! nat i in
        case find (\<lambda>v. dgst v = Digest inp) (inputs g) of
          None \<Rightarrow> Ret None
        | Some v \<Rightarrow>
            (let rs = refs (vstate w (addr v)) in
             if Index inp < 0 \<or> int (length rs) \<le> Index inp then Panic
             else Ret (rs ! nat (Index inp))))"

text \<open>
  The loop over \<open>op.Exec.Mounts\<close>: a mount with an output gets a new mutable ref on its
  input ref, appended to \<open>outputs\<close>. The loop ends early when \<open>cm.New\<close> fails.
\<close>

fun exec_mounts :: "env \<Rightarrow> opVertex \<Rightarrow> Mount list \<Rightarrow> (string \<rightharpoonup> Mountable) \<Rightarrow> MutableRef option list
    \<Rightarrow> world \<Rightarrow> (error option \<times> (string \<rightharpoonup> Mountable) \<times> MutableRef option list \<times> world) outcome" where
  "exec_mounts E g [] mounts outputs w = Ret (None, mounts, outputs, w)"
| "exec_mounts E g (m # ms) mounts outputs w =
     (case getInputRefForIndex w g (m_Input m) of
        Panic \<Rightarrow> Panic
      | Ret r \<Rightarrow>
          if Output m \<noteq> - 1 then
            (let res = cm_New E (calls w) r; w1 = called (EvNew r res) w in
             case res of
               Inl e \<Rightarrow> Ret (Some e, mounts, outputs, w1)
             | Inr active \<Rightarrow>
                 exec_mounts E g ms (mounts(Dest m \<mapsto> MountMutable active)) (outputs @ [Some active]) w1)
          else exec_mounts E g ms (mounts(Dest m \<mapsto> MountImmutable r)) outputs w)"

text \<open>
  The deferred function of \<open>runExecOp\<close>: every output that is still non-nil is frozen
  and, when that worked, released; errors are dropped.
\<close>

fun cleanup :: "env \<Rightarrow> MutableRef option list \<Rightarrow> world \<Rightarrow> world" where
  "cleanup E [] w = w"
| "cleanup E (None # os) w = cleanup E os w"
| "cleanup E (Some m # os) w =
     (let res = Freeze E (calls w) m; w1 = called (EvFreeze m res) w in
      case res of
        Inl e \<Rightarrow> cleanup E os w1
      | Inr s \<Rightarrow> cleanup E os (called (EvRelease (Some s) (Release E (calls w1) (Some s))) w1))"

text \<open>
  The loop \<open>for i, o := range outputs\<close> after the worker returned: \<open>done\<close> are the
  entries already set to nil. A method call on a nil entry would panic.
\<close>

fun commit_outputs :: "env \<Rightarrow> nat \<Rightarrow> MutableRef option list \<Rightarrow> MutableRef option list \<Rightarrow> world
    \<Rightarrow> (error option \<times> MutableRef option list \<times> world) outcome" where
  "commit_outputs E a done [] w = Ret (None, done, w)"
| "commit_outputs E a done (None # rest) w = Panic"
| "commit_outputs E a done (Some m # rest) w =
     (let res = ReleaseAndCommit E (calls w) m; w1 = called (EvCommit m res) w in
      case res of
        Inl e \<Rightarrow> Ret (Some (Wrapf e ''error committing''), done @ (Some m # rest), w1)
      | Inr r \<Rightarrow>
          commit_outputs E a (done @ [None]) rest
            (set_refs a (refs (vstate w1 a) @ [Some r]) w1))"

definition runExecOp :: "env \<Rightarrow> opVertex \<Rightarrow> Meta \<Rightarrow> Mount list \<Rightarrow> world \<Rightarrow> (error option \<times> world) outcome" where
  "runExecOp E g meta ms w =
     (case exec_mounts E g ms Map.empty [] w of
        Panic \<Rightarrow> Panic
      | Ret (Some e, mounts, outputs, w1) \<Rightarrow> Ret (Some e, cleanup E outputs w1)
      | Ret (None, mounts, outputs, w1) \<Rightarrow>
          (let res = w_Exec E (calls w1) meta mounts; w2 = called (EvExec meta res) w1 in
           case res of
             Some e \<Rightarrow> Ret (Some (Wrapf e ''worker failed running''), cleanup E outputs w2)
           | None \<Rightarrow>
               (case commit_outputs E (addr g) [] outputs (set_refs (addr g) [] w2) of
                  Panic \<Rightarrow> Panic
                | Ret (e, outputs', w3) \<Rightarrow> Ret (e, cleanup E outputs' w3))))"

definition notifyStarted :: "env \<Rightarrow> nat \<Rightarrow> digest \<Rightarrow> world \<Rightarrow> world" where
  "notifyStarted E a d w =
     called (EvStarted d)
       (w\<lparr>vstate := (vstate w)(a := (vstate w a)\<lparr>vtx := (vtx (vstate w a))\<lparr>Started := Some (Now E (calls w))\<rparr>\<rparr>)\<rparr>)"

definition notifyCompleted :: "env \<Rightarrow> nat \<Rightarrow> digest \<Rightarrow> world \<Rightarrow> world" where
  "notifyCompleted E a d w =
     called (EvCompleted d)
       (w\<lparr>vstate := (vstate w)(a := (vstate w a)\<lparr>vtx := (vtx (vstate w a))\<lparr>Completed := Some (Now E (calls w))\<rparr>\<rparr>)\<rparr>)"

definition dispatch :: "env \<Rightarrow> opVertex \<Rightarrow> world \<Rightarrow> (error option \<times> world) outcome" where
  "dispatch E g w =
     (case body (op g) of
        Op_Source identifier \<Rightarrow> Ret (runSourceOp E (addr g) identifier w)
      | Op_Exec meta ms \<Rightarrow> runExecOp E g meta ms w
      | Op_None \<Rightarrow> Ret (Some (Errorf ''invalid op type''), w))"

text \<open>
  \<open>solve\<close>. The two early returns come first. The inputs are solved by an
  \<open>errgroup\<close>: every input's \<open>solve\<close> is started, and \<open>Wait\<close> returns the first error;
  here they run one after the other, each under the mutex of its vertex, and the first
  error in that order is the result. The deferred functions run in reverse order:
  \<open>notifyCompleted\<close> (once \<open>notifyStarted\<close> has run), then the one that records the
  returned error in \<open>g.err\<close>.
\<close>

fun solve :: "env \<Rightarrow> opVertex \<Rightarrow> world \<Rightarrow> (error option \<times> world) outcome"
  and solve_inputs :: "env \<Rightarrow> opVertex list \<Rightarrow> world \<Rightarrow> (error option \<times> world) outcome" where
  "solve E (OpVertex a o' d ins) w =
     (case err (vstate w a) of
        Some e \<Rightarrow> Ret (Some e, w)
      | None \<Rightarrow>
          if length (refs (vstate w a)) > 0 then Ret (None, w)
          else
            (case solve_inputs E ins w of
               Panic \<Rightarrow> Panic
             | Ret (Some e, w1) \<Rightarrow> Ret (Some e, set_err a e w1)
             | Ret (None, w1) \<Rightarrow>
                 (case dispatch E (OpVertex a o' d ins) (notifyStarted E a d w1) of
                    Panic \<Rightarrow> Panic
                  | Ret (None, w2) \<Rightarrow> Ret (None, notifyCompleted E a d w2)
                  | Ret (Some e, w2) \<Rightarrow> Ret (Some e, set_err a e (notifyCompleted E a d w2)))))"
| "solve_inputs E [] w = Ret (None, w)"
| "solve_inputs E (v # vs) w =
     (case solve E v w of
        Panic \<Rightarrow> Panic
      | Ret (e, w1) \<Rightarrow>
          (case solve_inputs E vs w1 of
             Panic \<Rightarrow> Panic
           | Ret (e', w2) \<Rightarrow> Ret (case e of Some x \<Rightarrow> Some x | None \<Rightarrow> e', w2)))"

text \<open>
  \<open>opVertex.release\<close>: the inputs first, then the vertex's own non-nil refs; the last
  error wins.
\<close>

fun release_refs :: "env \<Rightarrow> ImmutableRef list \<Rightarrow> error option \<Rightarrow> world \<Rightarrow> error option \<times> world" where
  "release_refs E [] retErr w = (retErr, w)"
| "release_refs E (None # rs) retErr w = release_refs E rs retErr w"
| "release_refs E (Some r # rs) retErr w =
     (let res = Release E (calls w) (Some r); w1 = called (EvRelease (Some r) res) w in
      release_refs E rs (case res of Some e \<Rightarrow> Some e | None \<Rightarrow> retErr) w1)"

fun release :: "env \<Rightarrow> opVertex \<Rightarrow> world \<Rightarrow> error option \<times> world"
  and release_inputs :: "env \<Rightarrow> opVertex list \<Rightarrow> error option \<Rightarrow> world \<Rightarrow> error option \<times> world" where
  "release E (OpVertex a o' d ins) w =
     (case release_inputs E ins None w of
        (retErr, w1) \<Rightarrow> release_refs E (refs (vstate w1 a)) retErr w1)"
| "release_inputs E [] retErr w = (retErr, w)"
| "release_inputs E (v # vs) retErr w =
     (case release E v w of
        (Some e, w1) \<Rightarrow> release_inputs E vs (Some e) w1
      | (None, w1) \<Rightarrow> release_inputs E vs retErr w1)"

text \<open>
  \<open>Solver.Solve\<close>: the unwrapping of the submitted vertex, the registration of the job
  (\<open>jobList.new\<close> fails when the id exists), the solve and the release. The job is
  removed from the list by a goroutine once the context is cancelled, which the deferred
  \<open>cancel\<close> does when \<open>Solve\<close> returns; the state returned here is the one at the return.
\<close>

definition Solve :: "env \<Rightarrow> string \<Rightarrow> opVertex \<Rightarrow> world \<Rightarrow> (error option \<times> world) outcome" where
  "Solve E ident g w =
     (let g' = (if length (inputs g) > 0 then inputs g ! 0 else g) in
      case jobs w ident of
        Some j \<Rightarrow> Ret (Some (Errorf (''id '' @ ident @ '' exists'')), w)
      | None \<Rightarrow>
          (case solve E g' (w\<lparr>jobs := (jobs w)(ident \<mapsto> g')\<rparr>) of
             Panic \<Rightarrow> Panic
           | Ret (Some e, w1) \<Rightarrow> Ret (Some e, w1)
           | Ret (None, w1) \<Rightarrow> Ret (None, snd (release E g' w1))))"

text \<open>
  The convention in the words of the specification: a terminal vertex with exactly one
  input and no operation of its own stands for its input; any other vertex for itself.
\<close>

definition effective_root :: "opVertex \<Rightarrow> opVertex" where
  "effective_root g =
     (if length (inputs g) = 1 \<and> body (op g) = Op_None then inputs g ! 0 else g)"

text \<open>Observations on a result: the mounts that declare an output, and the refs of a vertex.\<close>

definition outputs_declared :: "Mount list \<Rightarrow> Mount list" where
  "outputs_declared ms = filter (\<lambda>m. Output m \<noteq> - 1) ms"

definition refs_at :: "nat \<Rightarrow> world \<Rightarrow> ImmutableRef list" where
  "refs_at a w = refs (vstate w a)"

definition job_of :: "string \<Rightarrow> world \<Rightarrow> opVertex option" where
  "job_of ident w = jobs w ident"

definition new_event :: "ImmutableRef \<times> MutableRef \<Rightarrow> event" where
  "new_event p = EvNew (fst p) (Inr (snd p))"

definition commit_event :: "MutableRef \<times> nat \<Rightarrow> event" where
  "commit_event p = EvCommit (fst p) (Inr (snd p))"

section \<open>The ref store (cache/refs.go)\<close>

subsection \<open>Metadata of a record\<close>

text \<open>
  Modelled from the spec: \<open>metadata.StorageItem\<close> and the accessors of the cache package
  on it (\<open>getChainID\<close>, \<open>queueChainID\<close>, \<open>getCachePolicy\<close>, \<open>updateLastUsed\<close>, ...)
  are not in the sources. The specification has the ref store persist per-record
  metadata (chain ids, cache policy, last-used timestamp, ...) in a keyed store: a
  \<open>get\<close> reads the current value, a \<open>queue\<close> function records a pending value,
  \<open>Commit\<close> makes the pending values current (in the order they were queued) unless the
  store fails, and \<open>updateLastUsed\<close> stamps the last-used timestamp and counts the use.
\<close>

datatype cachePolicy = cachePolicyDefault | cachePolicyRetain

datatype md_update =
    SetDiffID string
  | SetBlob string
  | SetChainID string
  | SetBlobChainID string
  | ClearEqualMutable
  | SetCachePolicy cachePolicy

record StorageItem =
  md_ID :: string
  md_ChainID :: string
  md_BlobChainID :: string
  md_DiffID :: string
  md_Blob :: string
  md_SnapshotID :: string
  md_BlobOnly :: bool
  md_EqualMutable :: string
  md_CachePolicy :: cachePolicy
  md_UsageCount :: nat
  md_LastUsedAt :: "nat option"
  md_queue :: "md_update list"

definition getChainID :: "StorageItem \<Rightarrow> string" where
  "getChainID si = md_ChainID si"

definition getBlobChainID :: "StorageItem \<Rightarrow> string" where
  "getBlobChainID si = md_BlobChainID si"

definition getCachePolicy :: "StorageItem \<Rightarrow> cachePolicy" where
  "getCachePolicy si = md_CachePolicy si"

definition queue_md :: "md_update \<Rightarrow> StorageItem \<Rightarrow> StorageItem" where
  "queue_md u si = si\<lparr>md_queue := md_queue si @ [u]\<rparr>"

fun apply_update :: "md_update \<Rightarrow> StorageItem \<Rightarrow> StorageItem" where
  "apply_update (SetDiffID v) si = si\<lparr>md_DiffID := v\<rparr>"
| "apply_update (SetBlob v) si = si\<lparr>md_Blob := v\<rparr>"
| "apply_update (SetChainID v) si = si\<lparr>md_ChainID := v\<rparr>"
| "apply_update (SetBlobChainID v) si = si\<lparr>md_BlobChainID := v\<rparr>"
| "apply_update ClearEqualMutable si = si\<lparr>md_EqualMutable := []\<rparr>"
| "apply_update (SetCachePolicy p) si = si\<lparr>md_CachePolicy := p\<rparr>"

definition commit_md :: "StorageItem \<Rightarrow> StorageItem" where
  "commit_md si = (fold apply_update (md_queue si) si)\<lparr>md_queue := []\<rparr>"

definition updateLastUsed_md :: "nat \<Rightarrow> StorageItem \<Rightarrow> StorageItem" where
  "updateLastUsed_md now si = si\<lparr>md_UsageCount := Suc (md_UsageCount si), md_LastUsedAt := Some now\<rparr>"

subsection \<open>Records, handles and the manager\<close>

text \<open>
  A \<open>cacheRecord\<close> is reached through pointers: from its handles (\<open>immutableRef\<close> and
  \<open>mutableRef\<close> embed \<open>*cacheRecord\<close>), from the record committed from it or to it
  (\<open>equalMutable\<close>, \<open>equalImmutable\<close>), from its children (\<open>parent\<close>). Records and
  handles live in two heaps, by address. \<open>cr_refs\<close> holds the keys of the \<open>refs\<close> map
  (the code only adds a handle, deletes one, asks whether the map is empty and whether
  some key updates last-used). The mutexes and the size group are left out.
\<close>

type_synonym rid = nat

type_synonym hid = nat

record cacheRecord =
  mutable :: bool
  cr_refs :: "hid list"
  parent :: "hid option"
  md :: StorageItem
  dead :: bool
  view :: string
  viewMount :: "nat option"
  equalMutable :: "hid option"
  equalImmutable :: "hid option"

record ref_handle =
  rec_of :: rid
  triggerLastUsed :: bool

text \<open>Calls to the content store, the lease manager, the snapshotter and the metadata store.\<close>

datatype cache_event =
    EvContentInfo string "error option"
  | EvLeaseAddResource string string string "error option"
  | EvLeaseCreate string "error option"
  | EvLeaseDelete string "error option"
  | EvSnapshotCommit string string "error option"
  | EvSnapshotRemove string "error option"
  | EvMdCommit string "error option"
  | EvMdClear string "error option"

text \<open>
  The manager with its heaps: \<open>records\<close> is the live map \<open>cm.records\<close>; \<open>spawned\<close> are
  the records whose removal \<open>finalize\<close> has handed to a goroutine.
\<close>

record store =
  recs :: "rid \<Rightarrow> cacheRecord"
  hdls :: "hid \<Rightarrow> ref_handle"
  records :: "string \<rightharpoonup> rid"
  next_hid :: hid
  spawned :: "rid list"
  c_trace :: "cache_event list"
  c_calls :: nat

text \<open>
  The collaborators of the ref store; as for the solver, a result may depend on the number
  of calls made before. \<open>identity_ChainID\<close> is \<open>ChainID\<close> of the image-spec identity
  package, a function of the digest list.
\<close>

record cache_env =
  ContentStore_Info :: "nat \<Rightarrow> string \<Rightarrow> error option"
  Lease_AddResource :: "nat \<Rightarrow> string \<Rightarrow> string \<Rightarrow> string \<Rightarrow> error option"
  Lease_Create :: "nat \<Rightarrow> string \<Rightarrow> error option"
  Lease_Delete :: "nat \<Rightarrow> string \<Rightarrow> error option"
  Snapshotter_Commit :: "nat \<Rightarrow> string \<Rightarrow> string \<Rightarrow> error option"
  Snapshotter_Remove :: "nat \<Rightarrow> string \<Rightarrow> error option"
  Snapshotter_Name :: string
  Md_Commit :: "nat \<Rightarrow> string \<Rightarrow> error option"
  Md_Clear :: "nat \<Rightarrow> string \<Rightarrow> error option"
  time_Now :: "nat \<Rightarrow> nat"
  identity_ChainID :: "string list \<Rightarrow> string"

definition upd_rec :: "rid \<Rightarrow> (cacheRecord \<Rightarrow> cacheRecord) \<Rightarrow> store \<Rightarrow> store" where
  "upd_rec r f s = s\<lparr>recs := (recs s)(r := f (recs s r))\<rparr>"

definition upd_hdl :: "hid \<Rightarrow> (ref_handle \<Rightarrow> ref_handle) \<Rightarrow> store \<Rightarrow> store" where
  "upd_hdl h f s = s\<lparr>hdls := (hdls s)(h := f (hdls s h))\<rparr>"

definition logged :: "cache_event \<Rightarrow> store \<Rightarrow> store" where
  "logged e s = s\<lparr>c_trace := c_trace s @ [e], c_calls := Suc (c_calls s)\<rparr>"

definition ID_of :: "store \<Rightarrow> rid \<Rightarrow> string" where
  "ID_of s r = md_ID (md (recs s r))"

text \<open>\<open>md.Commit()\<close> on the metadata of a record: the store decides whether it works.\<close>

definition Commit_md :: "cache_env \<Rightarrow> rid \<Rightarrow> store \<Rightarrow> error option \<times> store" where
  "Commit_md E r s =
     (let res = Md_Commit E (c_calls s) (ID_of s r); s1 = logged (EvMdCommit (ID_of s r) res) s in
      case res of
        Some e \<Rightarrow> (Some e, s1)
      | None \<Rightarrow> (None, upd_rec r (\<lambda>c. c\<lparr>md := commit_md (md c)\<rparr>) s1))"

subsection \<open>Handles\<close>

text \<open>\<open>cacheRecord.ref\<close> and \<open>cacheRecord.mref\<close>: a new handle, entered in \<open>refs\<close>.\<close>

definition ref_cr :: "rid \<Rightarrow> bool \<Rightarrow> store \<Rightarrow> hid \<times> store" where
  "ref_cr r trig s =
     (let h = next_hid s in
      (h, upd_rec r (\<lambda>c. c\<lparr>cr_refs := cr_refs c @ [h]\<rparr>)
            (s\<lparr>hdls := (hdls s)(h := \<lparr>rec_of = r, triggerLastUsed = trig\<rparr>), next_hid := Suc h\<rparr>)))"

definition Clone :: "hid \<Rightarrow> store \<Rightarrow> hid \<times> store" where
  "Clone sr s = ref_cr (rec_of (hdls s sr)) False s"

definition parentRef :: "rid \<Rightarrow> bool \<Rightarrow> store \<Rightarrow> hid option \<times> store" where
  "parentRef r hidden s =
     (case parent (recs s r) of
        None \<Rightarrow> (None, s)
      | Some p \<Rightarrow> (case ref_cr (rec_of (hdls s p)) hidden s of (h, s1) \<Rightarrow> (Some h, s1)))"

text \<open>
  \<open>immutableRef.updateLastUsedNow\<close>, evaluated after the handle was deleted from
  \<open>refs\<close>: the handle triggers and no remaining handle does.
\<close>

definition updateLastUsedNow :: "store \<Rightarrow> hid \<Rightarrow> bool" where
  "updateLastUsedNow s sr =
     (triggerLastUsed (hdls s sr)
      \<and> \<not> list_ex (\<lambda>r. triggerLastUsed (hdls s r)) (cr_refs (recs s (rec_of (hdls s sr)))))"

definition stamp :: "cache_env \<Rightarrow> rid \<Rightarrow> store \<Rightarrow> store" where
  "stamp E r s = upd_rec r (\<lambda>c. c\<lparr>md := updateLastUsed_md (time_Now E (c_calls s)) (md c)\<rparr>) s"

text \<open>
  The tail of both branches of \<open>mutableRef.release\<close> that keep the record: stamp
  last-used when the handle triggers, and clear the trigger.
\<close>

definition touch :: "cache_env \<Rightarrow> hid \<Rightarrow> store \<Rightarrow> store" where
  "touch E sr s =
     (if triggerLastUsed (hdls s sr)
      then upd_hdl sr (\<lambda>x. x\<lparr>triggerLastUsed := False\<rparr>) (stamp E (rec_of (hdls s sr)) s)
      else s)"

definition release_view :: "cache_env \<Rightarrow> rid \<Rightarrow> store \<Rightarrow> error option \<times> store" where
  "release_view E r s =
     (case viewMount (recs s r) of
        None \<Rightarrow> (None, s)
      | Some m \<Rightarrow>
          (let res = Snapshotter_Remove E (c_calls s) (view (recs s r));
               s1 = logged (EvSnapshotRemove (view (recs s r)) res) s in
           case res of
             Some e \<Rightarrow> (Some (Wrapf e ''failed to remove view''), s1)
           | None \<Rightarrow> (None, upd_rec r (\<lambda>c. c\<lparr>view := [], viewMount := None\<rparr>) s1)))"

definition lease_delete :: "cache_env \<Rightarrow> string \<Rightarrow> store \<Rightarrow> error option \<times> store" where
  "lease_delete E i s =
     (let res = Lease_Delete E (c_calls s) i in (res, logged (EvLeaseDelete i res) s))"

definition md_clear :: "cache_env \<Rightarrow> string \<Rightarrow> store \<Rightarrow> error option \<times> store" where
  "md_clear E i s =
     (let res = Md_Clear E (c_calls s) i in (res, logged (EvMdClear i res) s))"

subsection \<open>Release\<close>

text \<open>
  \<open>immutableRef.release\<close>, \<open>mutableRef.release\<close> and \<open>cacheRecord.remove\<close> call each
  other along the pointers of the heap (\<open>mut_release_rest\<close> is the part of
  \<open>mutableRef.release\<close> from \<open>if sr.parent != nil\<close> on). On a heap with a cycle of
  parents they would not return; every call takes one unit of fuel and \<open>None\<close> says that
  the fuel ran out. \<open>immutableRef.release\<close> drops the error of
  \<open>sr.equalMutable.release\<close>.
\<close>

fun imm_release :: "nat \<Rightarrow> cache_env \<Rightarrow> hid \<Rightarrow> store \<Rightarrow> (error option \<times> store) option"
  and mut_release :: "nat \<Rightarrow> cache_env \<Rightarrow> hid \<Rightarrow> store \<Rightarrow> (error option \<times> store) option"
  and mut_release_rest :: "nat \<Rightarrow> cache_env \<Rightarrow> hid \<Rightarrow> store \<Rightarrow> (error option \<times> store) option"
  and remove :: "nat \<Rightarrow> cache_env \<Rightarrow> rid \<Rightarrow> bool \<Rightarrow> store \<Rightarrow> (error option \<times> store) option" where
  "imm_release 0 E sr s = None"
| "imm_release (Suc n) E sr s =
     (let r = rec_of (hdls s sr);
          s1 = upd_rec r (\<lambda>c. c\<lparr>cr_refs := removeAll sr (cr_refs c)\<rparr>) s;
          s2 = (if updateLastUsedNow s1 sr then
                  (case equalMutable (recs s1 r) of
                     None \<Rightarrow> stamp E r s1
                   | Some m \<Rightarrow> upd_hdl m (\<lambda>x. x\<lparr>triggerLastUsed := True\<rparr>) (stamp E r s1))
                else s1)
      in if length (cr_refs (recs s2 r)) = 0 then
           (case release_view E r s2 of
              (Some e, s3) \<Rightarrow> Some (Some e, s3)
            | (None, s3) \<Rightarrow>
                (case equalMutable (recs s3 r) of
                   None \<Rightarrow> Some (None, s3)
                 | Some m \<Rightarrow>
                     (case mut_release n E m s3 of
                        None \<Rightarrow> None
                      | Some (e, s4) \<Rightarrow> Some (None, s4))))
         else Some (None, s2))"
| "mut_release 0 E sr s = None"
| "mut_release (Suc n) E sr s =
     (let r = rec_of (hdls s sr);
          s1 = upd_rec r (\<lambda>c. c\<lparr>cr_refs := removeAll sr (cr_refs c)\<rparr>) s
      in if getCachePolicy (md (recs s1 r)) \<noteq> cachePolicyRetain then
           (case equalImmutable (recs s1 r) of
              None \<Rightarrow> mut_release_rest n E sr s1
            | Some i \<Rightarrow>
                if getCachePolicy (md (recs s1 (rec_of (hdls s1 i)))) = cachePolicyRetain
                then Some (None, touch E sr s1)
                else
                  (case remove n E (rec_of (hdls s1 i)) False s1 of
                     None \<Rightarrow> None
                   | Some (Some e, s2) \<Rightarrow> Some (Some e, s2)
                   | Some (None, s2) \<Rightarrow> mut_release_rest n E sr s2))
         else Some (None, touch E sr s1))"
| "mut_release_rest 0 E sr s = None"
| "mut_release_rest (Suc n) E sr s =
     (let r = rec_of (hdls s sr) in
      case parent (recs s r) of
        None \<Rightarrow> remove n E r True s
      | Some p \<Rightarrow>
          (case imm_release n E p s of
             None \<Rightarrow> None
           | Some (Some e, s1) \<Rightarrow> Some (Some e, s1)
           | Some (None, s1) \<Rightarrow> remove n E r True s1))"
| "remove 0 E r removeSnapshot s = None"
| "remove (Suc n) E r removeSnapshot s =
     (let s1 = s\<lparr>records := (records s)(ID_of s r := None)\<rparr> in
      case (case parent (recs s1 r) of
              None \<Rightarrow> Some (None, s1)
            | Some p \<Rightarrow> imm_release n E p s1) of
        None \<Rightarrow> None
      | Some (Some e, s2) \<Rightarrow> Some (Some e, s2)
      | Some (None, s2) \<Rightarrow>
          (case (if removeSnapshot then lease_delete E (ID_of s2 r) s2 else (None, s2)) of
             (Some e, s3) \<Rightarrow> Some (Some (Wrapf e ''failed to remove''), s3)
           | (None, s3) \<Rightarrow> Some (md_clear E (ID_of s3 r) s3)))"

subsection \<open>finalize and SetBlob\<close>

text \<open>
  \<open>cacheRecord.finalize\<close>. With \<open>commit\<close> the equal mutable is committed in the
  snapshotter and marked dead, its removal is handed to a goroutine (which waits for the
  manager lock), a lease is created for the record, and the link to the mutable is
  cleared.
\<close>

definition finalize :: "cache_env \<Rightarrow> rid \<Rightarrow> bool \<Rightarrow> store \<Rightarrow> error option \<times> store" where
  "finalize E r commit s =
     (case equalMutable (recs s r) of
        None \<Rightarrow> (None, s)
      | Some m \<Rightarrow>
          (let rm = rec_of (hdls s m) in
           if \<not> commit then
             (if getCachePolicy (md (recs s rm)) = cachePolicyRetain
              then Commit_md E rm (upd_rec rm (\<lambda>c. c\<lparr>md := queue_md (SetCachePolicy cachePolicyRetain) (md c)\<rparr>) s)
              else (None, s))
           else
             (let res = Snapshotter_Commit E (c_calls s) (ID_of s r) (ID_of s rm);
                  s1 = logged (EvSnapshotCommit (ID_of s r) (ID_of s rm) res) s in
              case res of
                Some e \<Rightarrow> (Some (Wrapf e ''failed to commit''), s1)
              | None \<Rightarrow>
                  (let s2 = (upd_rec rm (\<lambda>c. c\<lparr>dead := True\<rparr>) s1)\<lparr>spawned := spawned s1 @ [rm]\<rparr>;
                       res2 = Lease_Create E (c_calls s2) (ID_of s2 r);
                       s3 = logged (EvLeaseCreate (ID_of s2 r) res2) s2 in
                   case res2 of
                     Some e \<Rightarrow> (Some (Wrapf e ''failed to create lease''), s3)
                   | None \<Rightarrow>
                       (let ty = ''snapshots/'' @ Snapshotter_Name E;
                            res3 = Lease_AddResource E (c_calls s3) (ID_of s3 r) (ID_of s3 r) ty;
                            s4 = logged (EvLeaseAddResource (ID_of s3 r) (ID_of s3 r) ty res3) s3 in
                        case res3 of
                          Some e \<Rightarrow> (Some (Wrapf e ''failed to add snapshot to lease''), s4)
                        | None \<Rightarrow>
                            Commit_md E r
                              (upd_rec r (\<lambda>c. c\<lparr>equalMutable := None,
                                                md := queue_md ClearEqualMutable (md c)\<rparr>) s4))))))"

text \<open>
  \<open>immutableRef.SetBlob\<close>: the blob must be known to the content store; a record with a
  chain id is left alone; otherwise the record is finalized, the chain ids of the parent
  are required, the blob is added to the lease and the four values are queued and
  committed.
\<close>

definition SetBlob_ref :: "cache_env \<Rightarrow> hid \<Rightarrow> string \<Rightarrow> string \<Rightarrow> store \<Rightarrow> error option \<times> store" where
  "SetBlob_ref E sr diffID blob s =
     (let r = rec_of (hdls s sr);
          res = ContentStore_Info E (c_calls s) blob;
          s1 = logged (EvContentInfo blob res) s in
      case res of
        Some e \<Rightarrow> (Some e, s1)
      | None \<Rightarrow>
          if getChainID (md (recs s1 r)) \<noteq> [] then (None, s1)
          else
            (case finalize E r True s1 of
               (Some e, s2) \<Rightarrow> (Some e, s2)
             | (None, s2) \<Rightarrow>
                 (let pc = (case parent (recs s2 r) of
                              None \<Rightarrow> []
                            | Some p \<Rightarrow> getChainID (md (recs s2 (rec_of (hdls s2 p)))));
                      pbc = (case parent (recs s2 r) of
                               None \<Rightarrow> []
                             | Some p \<Rightarrow> getBlobChainID (md (recs s2 (rec_of (hdls s2 p)))))
                  in if parent (recs s2 r) \<noteq> None \<and> (pc = [] \<or> pbc = [])
                     then (Some (Errorf ''failed to set blob for reference with non-addressable parent''), s2)
                     else
                       (let res2 = Lease_AddResource E (c_calls s2) (ID_of s2 r) blob ''content'';
                            s3 = logged (EvLeaseAddResource (ID_of s2 r) blob ''content'' res2) s2 in
                        case res2 of
                          Some e \<Rightarrow> (Some e, s3)
                        | None \<Rightarrow>
                            (let chainID = (if pc \<noteq> [] then identity_ChainID E [pc, diffID] else diffID);
                                 bc = identity_ChainID E [blob, diffID];
                                 blobChainID = (if pc \<noteq> [] then identity_ChainID E [pbc, bc] else bc)
                             in Commit_md E r
                                  (upd_rec r (\<lambda>c. c\<lparr>md :=
                                     queue_md (SetBlobChainID blobChainID)
                                       (queue_md (SetChainID chainID)
                                          (queue_md (SetBlob blob)
                                             (queue_md (SetDiffID diffID) (md c))))\<rparr>) s3))))))"

subsection \<open>Predicates on a store\<close>

text \<open>
  The release of a mutable handle keeps the record when the record has the retain policy
  or the record committed from it has.
\<close>

definition kept_by_policy :: "store \<Rightarrow> hid \<Rightarrow> bool" where
  "kept_by_policy s sr =
     (getCachePolicy (md (recs s (rec_of (hdls s sr)))) = cachePolicyRetain
      \<or> (case equalImmutable (recs s (rec_of (hdls s sr))) of
            None \<Rightarrow> False
          | Some i \<Rightarrow> getCachePolicy (md (recs s (rec_of (hdls s i)))) = cachePolicyRetain))"

text \<open>
  The pointers of a store are well-founded: a parent is of lower rank than its child, a
  record and the record committed from it are different records of the same rank. Parent
  chains are created by \<open>New\<close> and \<open>commit\<close> on existing records, so the depth of a
  record in its chain is such a rank.
\<close>

definition ranked :: "(rid \<Rightarrow> nat) \<Rightarrow> store \<Rightarrow> bool" where
  "ranked rk s =
     ((\<forall>r p. parent (recs s r) = Some p \<longrightarrow> rk (rec_of (hdls s p)) < rk r)
      \<and> (\<forall>r m. equalMutable (recs s r) = Some m \<longrightarrow>
             rk (rec_of (hdls s m)) \<le> rk r \<and> rec_of (hdls s m) \<noteq> r)
      \<and> (\<forall>r i. equalImmutable (recs s r) = Some i \<longrightarrow> rk (rec_of (hdls s i)) \<le> rk r))"

text \<open>The last-used stamp of a record: the use count and the time of the last use.\<close>

definition last_used :: "rid \<Rightarrow> store \<Rightarrow> nat \<times> nat option" where
  "last_used r s = (md_UsageCount (md (recs s r)), md_LastUsedAt (md (recs s r)))"

definition refs_of :: "rid \<Rightarrow> store \<Rightarrow> hid list" where
  "refs_of r s = cr_refs (recs s r)"

text \<open>
  The pointers of a store: which handle a record names as parent, equal mutable and
  equal immutable, and which record a handle is on. A release changes none of them.
\<close>

definition shape_of :: "store \<Rightarrow> (rid \<Rightarrow> hid option \<times> hid option \<times> hid option) \<times> (hid \<Rightarrow> rid)" where
  "shape_of s =
     (\<lambda>r. (parent (recs s r), equalMutable (recs s r), equalImmutable (recs s r)),
      \<lambda>h. rec_of (hdls s h))"

text \<open>
  The records whose metadata a release may write: for an immutable handle its own record
  and the record of the equal mutable, for a mutable handle its own record; apart from
  these, only records of lower rank.
\<close>

definition imm_ok :: "(rid \<Rightarrow> nat) \<Rightarrow> nat \<Rightarrow> bool" where
  "imm_ok rk n = (\<forall>E h s. ranked rk s \<and> 4 * rk (rec_of (hdls s h)) + 4 \<le> n \<longrightarrow>
     (\<exists>e s'. imm_release n E h s = Some (e, s')
        \<and> (\<forall>x. rk (rec_of (hdls s h)) \<le> rk x \<and> x \<noteq> rec_of (hdls s h)
               \<and> (\<forall>m. equalMutable (recs s (rec_of (hdls s h))) = Some m \<longrightarrow> x \<noteq> rec_of (hdls s m))
               \<longrightarrow> md (recs s' x) = md (recs s x))))"

definition mut_ok :: "(rid \<Rightarrow> nat) \<Rightarrow> nat \<Rightarrow> bool" where
  "mut_ok rk n = (\<forall>E h s. ranked rk s \<and> 4 * rk (rec_of (hdls s h)) + 3 \<le> n \<longrightarrow>
     (\<exists>e s'. mut_release n E h s = Some (e, s')
        \<and> (\<forall>x. rk (rec_of (hdls s h)) \<le> rk x \<and> x \<noteq> rec_of (hdls s h)
               \<longrightarrow> md (recs s' x) = md (recs s x))))"

definition rest_ok :: "(rid \<Rightarrow> nat) \<Rightarrow> nat \<Rightarrow> bool" where
  "rest_ok rk n = (\<forall>E h s. ranked rk s \<and> 4 * rk (rec_of (hdls s h)) + 2 \<le> n \<longrightarrow>
     (\<exists>e s'. mut_release_rest n E h s = Some (e, s')
        \<and> (\<forall>x. rk (rec_of (hdls s h)) \<le> rk x \<longrightarrow> md (recs s' x) = md (recs s x))))"

definition remove_ok :: "(rid \<Rightarrow> nat) \<Rightarrow> nat \<Rightarrow> bool" where
  "remove_ok rk n = (\<forall>E r b s. ranked rk s \<and> 4 * rk r + 1 \<le> n \<longrightarrow>
     (\<exists>e s'. remove n E r b s = Some (e, s')
        \<and> (\<forall>x. rk r \<le> rk x \<longrightarrow> md (recs s' x) = md (recs s x))))"

text \<open>
  A handle is the last one that updates last-used: it triggers, and no other handle in
  \<open>refs\<close> does. The address the next handle gets is not in use.
\<close>

definition last_trigger :: "store \<Rightarrow> hid \<Rightarrow> bool" where
  "last_trigger s sr =
     (triggerLastUsed (hdls s sr)
      \<and> \<not> list_ex (\<lambda>h. triggerLastUsed (hdls s h)) (removeAll sr (cr_refs (recs s (rec_of (hdls s sr))))))"

definition fresh_next :: "store \<Rightarrow> bool" where
  "fresh_next s =
     (\<forall>r. parent (recs s r) \<noteq> Some (next_hid s) \<and> equalMutable (recs s r) \<noteq> Some (next_hid s)
          \<and> equalImmutable (recs s r) \<noteq> Some (next_hid s) \<and> next_hid s \<notin> set (cr_refs (recs s r)))"

section \<open>Example states\<close>

text \<open>
  A closed bus with the root writer \<open>0\<close> and its handle; the child writer
  gets address \<open>1\<close>, writes an event, and the reader's next round ends the stream
  without returning it.
\<close>

definition closed_bus :: bus where
  "closed_bus =
     \<lparr>reader = \<lparr>ctx_done = True, handles = [\<lparr>pw = 0, sh_lastP = None\<rparr>]\<rparr>,
      writers = [0 \<mapsto> \<lparr>id_w = ''root'', lastP = None, done_w = False\<rparr>],
      next_writer = 1, next_ptr = 0, clock = 0\<rparr>"

definition an_event :: Progress where
  "an_event = \<lparr>ID = [], Message = ''pulling'', Action = [], Current = 0, Total = 0,
               Timestamp = 0, Done = False\<rparr>"

text \<open>
  The diamond: a source \<open>A\<close>, two exec vertices \<open>B\<close> and \<open>C\<close> on it, and \<open>D\<close> on both.
\<close>

definition sh_meta :: Meta where
  "sh_meta = \<lparr>Args = [''sh''], Env = [], Cwd = ''/''\<rparr>"

definition vertex_A :: opVertex where
  "vertex_A = OpVertex 0 \<lparr>body = Op_Source ''docker-image://x'', Inputs = []\<rparr> ''sha256:a'' []"

definition vertex_B :: opVertex where
  "vertex_B = OpVertex 1
     \<lparr>body = Op_Exec sh_meta [\<lparr>m_Input = 0, Dest = ''/'', Readonly = False, Output = 0\<rparr>],
      Inputs = [\<lparr>Digest = ''sha256:a'', Index = 0\<rparr>]\<rparr> ''sha256:b'' [vertex_A]"

definition vertex_C :: opVertex where
  "vertex_C = OpVertex 2
     \<lparr>body = Op_Exec sh_meta [\<lparr>m_Input = 0, Dest = ''/'', Readonly = True, Output = SkipOutput\<rparr>,
                              \<lparr>m_Input = 0, Dest = ''/out'', Readonly = False, Output = 0\<rparr>],
      Inputs = [\<lparr>Digest = ''sha256:a'', Index = 0\<rparr>]\<rparr> ''sha256:c'' [vertex_A]"

definition vertex_D :: opVertex where
  "vertex_D = OpVertex 3
     \<lparr>body = Op_Exec sh_meta [\<lparr>m_Input = 0, Dest = ''/'', Readonly = False, Output = 0\<rparr>,
                              \<lparr>m_Input = 1, Dest = ''/c'', Readonly = True, Output = SkipOutput\<rparr>],
      Inputs = [\<lparr>Digest = ''sha256:b'', Index = 0\<rparr>, \<lparr>Digest = ''sha256:c'', Index = 0\<rparr>]\<rparr>
     ''sha256:d'' [vertex_B, vertex_C]"

text \<open>
  Collaborators that always succeed and return the number of the call as the new ref; a
  world in which nothing has been solved; and collaborators whose commit fails.
\<close>

definition ok_env :: env where
  "ok_env =
     \<lparr>FromString = (\<lambda>s. Inr \<lparr>id_scheme = ''docker-image'', id_ref = s\<rparr>),
      sources = [''docker-image'' \<mapsto> (\<lambda>n i. Inr n)],
      cm_New = (\<lambda>n r. Inr n),
      w_Exec = (\<lambda>n m ms. None),
      ReleaseAndCommit = (\<lambda>n m. Inr n),
      Freeze = (\<lambda>n m. Inr n),
      Release = (\<lambda>n r. None),
      Now = (\<lambda>n. n)\<rparr>"

definition commit_fails_env :: env where
  "commit_fails_env = ok_env\<lparr>ReleaseAndCommit := (\<lambda>n m. Inl (Errorf ''boom''))\<rparr>"

definition world0 :: world where
  "world0 =
     \<lparr>vstate = (\<lambda>a. \<lparr>refs = [], err = None,
                      vtx = \<lparr>v_Digest = [], v_Name = [], v_Inputs = [], Started = None, Completed = None\<rparr>\<rparr>),
      jobs = Map.empty, trace = [], calls = 0\<rparr>"

definition vertex_E :: opVertex where
  "vertex_E = OpVertex 4
     \<lparr>body = Op_Exec sh_meta [\<lparr>m_Input = 0, Dest = ''/a'', Readonly = False, Output = 1\<rparr>,
                              \<lparr>m_Input = 1, Dest = ''/b'', Readonly = False, Output = 0\<rparr>],
      Inputs = [\<lparr>Digest = ''sha256:a'', Index = 0\<rparr>, \<lparr>Digest = ''sha256:b'', Index = 0\<rparr>]\<rparr>
     ''sha256:e'' [vertex_A, vertex_B]"

text \<open>The return vertex the client puts on top of \<open>B\<close>: one input, no operation.\<close>

definition vertex_R :: opVertex where
  "vertex_R = OpVertex 5 \<lparr>body = Op_None, Inputs = [\<lparr>Digest = ''sha256:b'', Index = 0\<rparr>]\<rparr>
     ''sha256:r'' [vertex_B]"

text \<open>Worlds in which \<open>B\<close> has failed, and in which \<open>A\<close> has been solved.\<close>

definition failed_world :: world where
  "failed_world = set_err 1 (Errorf ''boom'') world0"

definition solved_world :: world where
  "solved_world = set_refs 0 [Some 1] world0"

text \<open>
  A store with three records: the immutable \<open>base\<close> (record 0); the mutable \<open>m\<close>
  (record 1) created on it, held by handle 20; and the immutable \<open>i\<close> (record 2)
  committed from \<open>m\<close>, held by handle 30, with the retain policy. Handles 10 and 11 are
  the parent refs of \<open>m\<close> and \<open>i\<close> on \<open>base\<close>.
\<close>

definition item :: "string \<Rightarrow> cachePolicy \<Rightarrow> StorageItem" where
  "item i p =
     \<lparr>md_ID = i, md_ChainID = [], md_BlobChainID = [], md_DiffID = [], md_Blob = [],
      md_SnapshotID = i, md_BlobOnly = False, md_EqualMutable = [], md_CachePolicy = p,
      md_UsageCount = 0, md_LastUsedAt = None, md_queue = []\<rparr>"

definition no_record :: cacheRecord where
  "no_record =
     \<lparr>mutable = False, cr_refs = [], parent = None, md = item [] cachePolicyDefault, dead = False,
      view = [], viewMount = None, equalMutable = None, equalImmutable = None\<rparr>"

definition store3 :: store where
  "store3 =
     \<lparr>recs = (\<lambda>r. no_record)
        (0 := no_record\<lparr>cr_refs := [10, 11], md := item ''base'' cachePolicyDefault\<rparr>,
         1 := no_record\<lparr>mutable := True, cr_refs := [20], parent := Some 10,
                         md := item ''m'' cachePolicyDefault, equalImmutable := Some 30\<rparr>,
         2 := no_record\<lparr>cr_refs := [30], parent := Some 11, md := item ''i'' cachePolicyRetain,
                         equalMutable := Some 20\<rparr>),
      hdls = (\<lambda>h. \<lparr>rec_of = 0, triggerLastUsed = False\<rparr>)
        (20 := \<lparr>rec_of = 1, triggerLastUsed = True\<rparr>,
         30 := \<lparr>rec_of = 2, triggerLastUsed = True\<rparr>),
      records = [''base'' \<mapsto> 0, ''m'' \<mapsto> 1, ''i'' \<mapsto> 2],
      next_hid = 31, spawned = [], c_trace = [], c_calls = 0\<rparr>"

definition rank3 :: "rid \<Rightarrow> nat" where
  "rank3 r = (if r = 0 then 0 else 1)"

text \<open>
  A chain of two committed records without blobs: \<open>root\<close> (record 0, handle 1) and
  \<open>child\<close> (record 1, handle 2) on it through the parent ref 3.
\<close>

definition chain2 :: store where
  "chain2 =
     \<lparr>recs = (\<lambda>r. no_record)
        (0 := no_record\<lparr>cr_refs := [1, 3], md := item ''root'' cachePolicyDefault\<rparr>,
         1 := no_record\<lparr>cr_refs := [2], parent := Some 3, md := item ''child'' cachePolicyDefault\<rparr>),
      hdls = (\<lambda>h. \<lparr>rec_of = 0, triggerLastUsed = False\<rparr>)
        (1 := \<lparr>rec_of = 0, triggerLastUsed = True\<rparr>,
         2 := \<lparr>rec_of = 1, triggerLastUsed = True\<rparr>),
      records = [''root'' \<mapsto> 0, ''child'' \<mapsto> 1],
      next_hid = 4, spawned = [], c_trace = [], c_calls = 0\<rparr>"

text \<open>
  Collaborators of the ref store that always succeed; the chain id of a digest list is
  written out symbolically.
\<close>

definition ok_cache_env :: cache_env where
  "ok_cache_env =
     \<lparr>ContentStore_Info = (\<lambda>n b. None),
      Lease_AddResource = (\<lambda>n l r t. None),
      Lease_Create = (\<lambda>n l. None),
      Lease_Delete = (\<lambda>n l. None),
      Snapshotter_Commit = (\<lambda>n a b. None),
      Snapshotter_Remove = (\<lambda>n v. None),
      Snapshotter_Name = ''overlayfs'',
      Md_Commit = (\<lambda>n i. None),
      Md_Clear = (\<lambda>n i. None),
      time_Now = (\<lambda>n. 100 + n),
      identity_ChainID = (\<lambda>ds. ''H('' @ concat (map (\<lambda>d. d @ '';'') ds) @ '')'')\<rparr>"

text \<open>The chain after \<open>SetBlob\<close> on the root, and after \<open>SetBlob\<close> on the child as well.\<close>

definition root_set :: store where
  "root_set = snd (SetBlob_ref ok_cache_env 1 ''sha256:d0'' ''sha256:b0'' chain2)"

definition child_set :: store where
  "child_set = snd (SetBlob_ref ok_cache_env 2 ''sha256:d1'' ''sha256:b1'' root_set)"

section \<open>Properties of the progress bus\<close>

subsection \<open>Writers and the terminal event\<close>

lemma pw_Write_after_done:
  "done_w w \<Longrightarrow> pw_Write a now w p = (Some (Errorf (''writing to closed progresswriter '' @ id_w w)), w)"
  by (simp add: pw_Write_def)

lemma pw_Done_republishes:
  assumes "lastP w = Some (a0, lp)" and "\<not> Done lp" and "\<not> done_w w"
  shows "pw_Done a now w =
           Ret (None, w\<lparr>lastP := Some (a, (if Timestamp lp = 0 then lp\<lparr>Timestamp := now\<rparr> else lp)
                                          \<lparr>ID := id_w w, Done := True\<rparr>),
                        done_w := True\<rparr>)"
  using assms by (simp add: pw_Done_def pw_Write_def Let_def)

lemma pw_Done_sets_flag:
  assumes "lastP w = Some (a0, lp)" and "done_w w = Done lp" and "pw_Done a now w = Ret (r, w')"
  shows "r = None \<and> done_w w' \<and> (\<exists>a' p'. lastP w' = Some (a', p') \<and> Done p')"
  using assms by (auto simp: pw_Done_def pw_Write_def Let_def split: if_splits)

lemma pw_Write_after_Done:
  assumes "lastP w = Some (a0, lp)" and "done_w w = Done lp" and "pw_Done a now w = Ret (r, w')"
  shows "pw_Write a' now' w' p = (Some (Errorf (''writing to closed progresswriter '' @ id_w w')), w')"
  using pw_Done_sets_flag [OF assms] by (simp add: pw_Write_after_done)

text \<open>
  C8. The claim: for every progress writer, after \<open>Done\<close> the done flag is set, the last
  event is republished with \<open>done = true\<close>, and later writes return an error. A writer
  that has published nothing yet is a progress writer too, and on it \<open>Done\<close> panics in
  the type assertion of its first statement: nothing is published, the flag stays unset
  and the call does not return. (For a writer that has a last event the claim holds:
  \<open>pw_Done_republishes\<close>, \<open>pw_Done_sets_flag\<close>, \<open>pw_Write_after_Done\<close>.)
\<close>

theorem pw_Done_fresh_writer_panics:
  "pw_Done 0 1 \<lparr>id_w = ''vertex'', lastP = None, done_w = False\<rparr> = Panic"
  by (simp add: pw_Done_def)

subsection \<open>Appending to a closed reader\<close>

lemma append_handle_closed: "ctx_done pr \<Longrightarrow> append_handle pr w = pr"
  by (simp add: append_handle_def)

lemma next_sh_pw: "next_sh ws sh = (r, sh') \<Longrightarrow> pw sh' = pw sh"
  by (auto simp: next_sh_def split: option.splits if_splits prod.splits)

lemma scan_sources:
  "scan ws hs opn = (r, hs', o') \<Longrightarrow>
     map pw hs' = map pw hs \<and> (\<forall>i p. r = Some (i, p) \<longrightarrow> i \<in> pw ` set hs)"
proof (induction hs arbitrary: opn r hs' o')
  case Nil
  then show ?case by simp
next
  case (Cons sh rest)
  obtain e sh1 where n: "next_sh ws sh = (e, sh1)" by (cases "next_sh ws sh")
  show ?case
  proof (cases e)
    case (Some p)
    with Cons.prems n next_sh_pw [OF n] show ?thesis by auto
  next
    case None
    let ?opn = "opn \<or> (case sh_lastP sh of None \<Rightarrow> True | Some (_, l) \<Rightarrow> \<not> Done l)"
    obtain r1 rest1 o1 where s: "scan ws rest ?opn = (r1, rest1, o1)"
      by (cases "scan ws rest ?opn")
    from Cons.IH [OF s] Cons.prems n None s show ?thesis by auto
  qed
qed

lemma step_closed_without:
  assumes "closed_without w b" and "step a b = Ret (b', obs)"
  shows "closed_without w b' \<and> w \<notin> fst ` set obs"
proof (cases a)
  case (AWrite i p)
  with assms show ?thesis
    by (auto simp: closed_without_def split: option.splits prod.splits)
next
  case (ADone i)
  with assms show ?thesis
    by (auto simp: closed_without_def split: option.splits prod.splits outcome.splits)
next
  case (ANewWriter i name)
  with assms show ?thesis
    by (auto simp: closed_without_def newWriter_def Let_def append_handle_closed split: option.splits)
next
  case (ARead cd)
  show ?thesis
  proof (cases cd)
    case True
    with ARead assms show ?thesis by (auto simp: Read_round_def)
  next
    case False
    obtain r hs o' where s: "scan (writers b) (handles (reader b)) False = (r, hs, o')"
      by (cases "scan (writers b) (handles (reader b)) False")
    from scan_sources [OF s]
    have m: "map pw hs = map pw (handles (reader b))"
      and src: "\<And>i p. r = Some (i, p) \<Longrightarrow> i \<in> pw ` set (handles (reader b))" by auto
    from m have e: "pw ` set hs = pw ` set (handles (reader b))"
      by (metis set_map)
    from assms(1) e have w1: "ctx_done (reader b)" "w \<notin> pw ` set hs"
      by (simp_all add: closed_without_def)
    have w2: "\<And>i p. r = Some (i, p) \<Longrightarrow> i \<noteq> w"
      using src assms(1) by (auto simp: closed_without_def)
    show ?thesis
      using ARead False assms(2) s w1 w2
      by (cases r) (auto simp: closed_without_def Read_round_def split: if_splits)
  qed
next
  case ACancel
  with assms show ?thesis by (auto simp: closed_without_def)
qed

lemma run_closed_without: "closed_without w b \<Longrightarrow> w \<notin> fst ` set (run acts b)"
proof (induction acts arbitrary: b)
  case Nil
  then show ?case by simp
next
  case (Cons a acts)
  show ?case
  proof (cases "step a b")
    case Panic
    then show ?thesis by simp
  next
    case (Ret x)
    obtain b' obs where x: "x = (b', obs)" by (cases x)
    from step_closed_without [OF Cons.prems] Ret x
    have "closed_without w b'" and "w \<notin> fst ` set obs" by auto
    with Cons.IH [of b'] Ret x show ?thesis by auto
  qed
qed

text \<open>
  C10. On a reader whose context is cancelled, \<open>append\<close> returns without touching the
  handle list; so for a writer registered then (\<open>newWriter\<close> calls \<open>append\<close>), the
  reader's state is what it was, and whatever happens on the bus afterwards (writes on
  any writer, \<open>Done\<close>, further writers, rounds of \<open>Read\<close>), no event the reader returns
  comes from that writer.
\<close>

theorem append_on_closed_reader_is_noop:
  assumes "ctx_done (reader b)" and "handles_allocated b"
  shows "append_handle (reader b) w = reader b
       \<and> reader (snd (newWriter par name b)) = reader b
       \<and> (\<forall>acts. fst (newWriter par name b) \<notin> fst ` set (run acts (snd (newWriter par name b))))"
proof -
  let ?i = "fst (newWriter par name b)" and ?b = "snd (newWriter par name b)"
  have r: "reader ?b = reader b"
    using assms(1) by (simp add: newWriter_def Let_def append_handle_closed)
  have i: "?i = next_writer b" by (simp add: newWriter_def Let_def)
  have "next_writer b \<notin> pw ` set (handles (reader b))"
    using assms(2) by (auto simp: handles_allocated_def list_all_iff)
  with r i assms(1) have "closed_without ?i ?b" by (simp add: closed_without_def)
  then have "\<forall>acts. ?i \<notin> fst ` set (run acts ?b)" by (simp add: run_closed_without)
  with r assms(1) show ?thesis by (simp add: append_handle_closed)
qed

theorem append_on_closed_reader_is_noop_witness:
  "ctx_done (reader closed_bus) \<and> handles_allocated closed_bus
   \<and> reader (snd (newWriter \<lparr>id_w = ''root'', lastP = None, done_w = False\<rparr> ''child'' closed_bus))
       = reader closed_bus
   \<and> fst (newWriter \<lparr>id_w = ''root'', lastP = None, done_w = False\<rparr> ''child'' closed_bus) = 1
   \<and> 1 \<notin> fst ` set (run [AWrite 1 an_event, ARead False]
        (snd (newWriter \<lparr>id_w = ''root'', lastP = None, done_w = False\<rparr> ''child'' closed_bus)))"
proof -
  have c: "ctx_done (reader closed_bus)" by (simp add: closed_bus_def)
  have h: "handles_allocated closed_bus" by (simp add: closed_bus_def handles_allocated_def)
  have i: "fst (newWriter \<lparr>id_w = ''root'', lastP = None, done_w = False\<rparr> ''child'' closed_bus) = 1"
    by (simp add: newWriter_def closed_bus_def)
  let ?root = "\<lparr>id_w = ''root'', lastP = None, done_w = False\<rparr>"
  from append_on_closed_reader_is_noop [OF c h, of 0 ?root "''child''"]
  have r: "reader (snd (newWriter ?root ''child'' closed_bus)) = reader closed_bus"
    and a: "\<forall>acts. fst (newWriter ?root ''child'' closed_bus)
               \<notin> fst ` set (run acts (snd (newWriter ?root ''child'' closed_bus)))"
    by blast+
  from a have "fst (newWriter ?root ''child'' closed_bus)
      \<notin> fst ` set (run [AWrite 1 an_event, ARead False] (snd (newWriter ?root ''child'' closed_bus)))"
    by (rule spec)
  with i have "1 \<notin> fst ` set (run [AWrite 1 an_event, ARead False]
      (snd (newWriter ?root ''child'' closed_bus)))"
    by simp
  with c h r i show ?thesis by blast
qed

section \<open>Properties of the status walk\<close>

lemma self_in_vertices: "v \<in> vertices v"
  by (cases v) simp

lemma vertices_inputs: "u \<in> set (inputs v) \<Longrightarrow> vertices u \<subseteq> vertices v"
  by (cases v) auto

lemma inputs_first_snoc:
  assumes "inputs_first ch" and "\<forall>u \<in> set (inputs v). dgst u \<in> dgst ` set ch"
  shows "inputs_first (ch @ [v])"
  unfolding inputs_first_def
proof (intro allI impI ballI)
  fix i u
  assume i: "i < length (ch @ [v])" and u: "u \<in> set (inputs ((ch @ [v]) ! i))"
  show "\<exists>j<i. dgst ((ch @ [v]) ! j) = dgst u"
  proof (cases "i < length ch")
    case True
    with assms(1) u obtain j where "j < i" "dgst (ch ! j) = dgst u"
      by (auto simp: inputs_first_def nth_append)
    with True show ?thesis by (auto simp: nth_append intro!: exI [of _ j])
  next
    case False
    with i have e: "i = length ch" by simp
    with u have "u \<in> set (inputs v)" by simp
    with assms(2) obtain x where "x \<in> set ch" "dgst x = dgst u" by force
    then obtain j where "j < length ch" "ch ! j = x" by (auto simp: in_set_conv_nth)
    with e \<open>dgst x = dgst u\<close> show ?thesis by (auto simp: nth_append intro!: exI [of _ j])
  qed
qed

lemma fold_send_ok:
  assumes "\<And>x st. x \<in> set ins \<Longrightarrow> send_ok x st" and "walk_inv st"
  shows "walk_inv (fold send ins st)
       \<and> (\<exists>new. snd (fold send ins st) = snd st @ new \<and> set new \<subseteq> \<Union> (vertices ` set ins))
       \<and> fst (fold send ins st) = fst st \<union> dgst ` \<Union> (vertices ` set ins)"
  using assms
proof (induction ins arbitrary: st)
  case Nil
  then show ?case by simp
next
  case (Cons x xs)
  from Cons.prems have x: "walk_inv (send x st)"
    and xn: "\<exists>new. snd (send x st) = snd st @ new \<and> set new \<subseteq> vertices x"
    and xc: "fst (send x st) = fst st \<union> dgst ` vertices x"
    unfolding send_ok_def by (auto simp del: send.simps)
  from Cons.IH [OF _ x] Cons.prems(1)
  have r: "walk_inv (fold send xs (send x st))"
    and rn: "\<exists>new. snd (fold send xs (send x st)) = snd (send x st) @ new \<and> set new \<subseteq> \<Union> (vertices ` set xs)"
    and rc: "fst (fold send xs (send x st)) = fst (send x st) \<union> dgst ` \<Union> (vertices ` set xs)"
    by (auto simp del: send.simps)
  from xn rn have "\<exists>new. snd (fold send (x # xs) st) = snd st @ new \<and> set new \<subseteq> \<Union> (vertices ` set (x # xs))"
    by (auto simp del: send.simps)
  moreover from xc rc have "fst (fold send (x # xs) st) = fst st \<union> dgst ` \<Union> (vertices ` set (x # xs))"
    by (auto simp del: send.simps)
  ultimately show ?case using r by (simp del: send.simps)
qed

lemma send_ok_all: "send_ok v st"
proof (induction v st rule: send.induct)
  case (1 a o' d ins st)
  let ?V = "OpVertex a o' d ins"
  show ?case
    unfolding send_ok_def
  proof
    assume inv: "walk_inv st"
    obtain cache ch where f: "fold send ins st = (cache, ch)" by (cases "fold send ins st")
    have ih: "\<And>x st'. x \<in> set ins \<Longrightarrow> send_ok x st'" using 1 by blast
    from fold_send_ok [of ins st, OF ih inv] f
    have i1: "walk_inv (cache, ch)"
      and n1: "\<exists>new. ch = snd st @ new \<and> set new \<subseteq> \<Union> (vertices ` set ins)"
      and c1: "cache = fst st \<union> dgst ` \<Union> (vertices ` set ins)"
      by (auto simp del: send.simps)
    have ins: "\<forall>u \<in> set ins. dgst u \<in> dgst ` set ch"
    proof
      fix u assume "u \<in> set ins"
      with self_in_vertices [of u] c1 have "dgst u \<in> cache" by auto
      with i1 show "dgst u \<in> dgst ` set ch" by (simp add: walk_inv_def)
    qed
    show "walk_inv (send ?V st) \<and> (\<exists>new. snd (send ?V st) = snd st @ new \<and> set new \<subseteq> vertices ?V)
        \<and> fst (send ?V st) = fst st \<union> dgst ` vertices ?V"
    proof (cases "d \<in> cache")
      case True
      with f i1 n1 c1 show ?thesis by auto
    next
      case False
      from i1 False have nd: "d \<notin> dgst ` set ch" by (simp add: walk_inv_def)
      from ins i1 have "inputs_first (ch @ [?V])"
        by (intro inputs_first_snoc) (simp_all add: walk_inv_def)
      with i1 nd have "walk_inv (insert d cache, ch @ [?V])"
        by (auto simp: walk_inv_def)
      with False f n1 c1 show ?thesis by auto
    qed
  qed
qed

text \<open>
  C6. The initial walk of \<open>pipe\<close> sends one status message per vertex that \<open>walk\<close>
  puts on the channel; the vertices on the channel have pairwise different digests, their
  digests are exactly the digests of the graph (so a vertex reached along several paths,
  or any two vertices with one digest, yield one message), they are vertices of the
  graph, and the digest of every input of a sent vertex was sent before the vertex.
\<close>

theorem walk_once_per_digest_in_postorder:
  "distinct (map dgst (walk g)) \<and> dgst ` set (walk g) = dgst ` vertices g
   \<and> set (walk g) \<subseteq> vertices g \<and> inputs_first (walk g)
   \<and> pipe_initial None g = (None, map status_of (walk g))"
proof -
  have "walk_inv ({}, [])" by (simp add: walk_inv_def inputs_first_def)
  with send_ok_all [of g "({}, [])"]
  have "distinct (map dgst (walk g)) \<and> dgst ` set (walk g) = dgst ` vertices g
        \<and> set (walk g) \<subseteq> vertices g \<and> inputs_first (walk g)"
    unfolding send_ok_def walk_def walk_inv_def by (auto simp del: send.simps)
  then show ?thesis by (simp add: pipe_initial_def)
qed

theorem walk_once_per_digest_in_postorder_witness:
  "walk vertex_D = [vertex_A, vertex_B, vertex_C, vertex_D]
   \<and> distinct (map dgst (walk vertex_D)) \<and> inputs_first (walk vertex_D)
   \<and> pipe_initial None vertex_D
       = (None, [\<lparr>Vertexes = [0]\<rparr>, \<lparr>Vertexes = [1]\<rparr>, \<lparr>Vertexes = [2]\<rparr>, \<lparr>Vertexes = [3]\<rparr>])"
proof -
  have w: "walk vertex_D = [vertex_A, vertex_B, vertex_C, vertex_D]"
    by (simp add: walk_def vertex_D_def vertex_C_def vertex_B_def vertex_A_def)
  have s: "map status_of [vertex_A, vertex_B, vertex_C, vertex_D]
             = [\<lparr>Vertexes = [0]\<rparr>, \<lparr>Vertexes = [1]\<rparr>, \<lparr>Vertexes = [2]\<rparr>, \<lparr>Vertexes = [3]\<rparr>]"
    by (simp add: status_of_def vertex_D_def vertex_C_def vertex_B_def vertex_A_def)
  from walk_once_per_digest_in_postorder [of vertex_D] show ?thesis
    unfolding w s by blast
qed

section \<open>Properties of the solver\<close>

lemmas ex_defs = vertex_A_def vertex_B_def vertex_C_def vertex_D_def sh_meta_def ok_env_def
  commit_fails_env_def world0_def

lemmas solver_defs = dispatch_def runExecOp_def runSourceOp_def sm_Pull_def getInputRefForIndex_def
  notifyStarted_def notifyCompleted_def called_def set_refs_def set_err_def Let_def

lemma getInputRefForIndex_refs:
  "(\<And>b. refs (vstate w1 b) = refs (vstate w b)) \<Longrightarrow> getInputRefForIndex w1 g i = getInputRefForIndex w g i"
  by (simp add: getInputRefForIndex_def Let_def split: option.splits)

lemma called_simps [simp]:
  "vstate (called e w) = vstate w" "trace (called e w) = trace w @ [e]"
  "calls (called e w) = Suc (calls w)" "jobs (called e w) = jobs w"
  by (simp_all add: called_def)

lemma exec_mounts_success:
  "exec_mounts E g ms mounts outputs w = Ret (None, mounts', outputs', w') \<Longrightarrow>
     \<exists>news. length news = length (outputs_declared ms)
       \<and> outputs' = outputs @ map (Some \<circ> snd) news
       \<and> trace w' = trace w @ map new_event news
       \<and> vstate w' = vstate w
       \<and> map (Ret \<circ> fst) news = map (\<lambda>m. getInputRefForIndex w g (m_Input m)) (outputs_declared ms)"
proof (induction ms arbitrary: mounts outputs w)
  case Nil
  then show ?case by (simp add: outputs_declared_def)
next
  case (Cons m ms)
  from Cons.prems obtain r where r: "getInputRefForIndex w g (m_Input m) = Ret r"
    by (cases "getInputRefForIndex w g (m_Input m)") auto
  show ?case
  proof (cases "Output m \<noteq> - 1")
    case False
    with Cons.prems r
    have "exec_mounts E g ms (mounts(Dest m \<mapsto> MountImmutable r)) outputs w = Ret (None, mounts', outputs', w')"
      by simp
    from Cons.IH [OF this] False show ?thesis by (simp add: outputs_declared_def)
  next
    case True
    with Cons.prems r obtain active where a: "cm_New E (calls w) r = Inr active"
      by (cases "cm_New E (calls w) r") (auto simp: Let_def)
    let ?w1 = "called (EvNew r (Inr active)) w"
    from Cons.prems r True a
    have "exec_mounts E g ms (mounts(Dest m \<mapsto> MountMutable active)) (outputs @ [Some active]) ?w1
            = Ret (None, mounts', outputs', w')"
      by (simp add: Let_def)
    from Cons.IH [OF this] obtain news where
      n: "length news = length (outputs_declared ms)"
      "outputs' = (outputs @ [Some active]) @ map (Some \<circ> snd) news"
      "trace w' = trace ?w1 @ map new_event news"
      "vstate w' = vstate ?w1"
      "map (Ret \<circ> fst) news = map (\<lambda>m. getInputRefForIndex ?w1 g (m_Input m)) (outputs_declared ms)"
      by blast
    have g: "\<And>i. getInputRefForIndex ?w1 g i = getInputRefForIndex w g i"
      by (rule getInputRefForIndex_refs) simp
    let ?news = "(r, active) # news"
    from n g r True have
      "length ?news = length (outputs_declared (m # ms))
       \<and> outputs' = outputs @ map (Some \<circ> snd) ?news
       \<and> trace w' = trace w @ map new_event ?news
       \<and> vstate w' = vstate w
       \<and> map (Ret \<circ> fst) ?news = map (\<lambda>m. getInputRefForIndex w g (m_Input m)) (outputs_declared (m # ms))"
      by (simp add: outputs_declared_def new_event_def)
    then show ?thesis by blast
  qed
qed

lemma commit_outputs_success:
  "commit_outputs E a done (map Some ms) w = Ret (None, outs', w') \<Longrightarrow>
     \<exists>rs. length rs = length ms
       \<and> trace w' = trace w @ map commit_event (zip ms rs)
       \<and> refs (vstate w' a) = refs (vstate w a) @ map Some rs
       \<and> outs' = done @ replicate (length ms) None"
proof (induction ms arbitrary: "done" w)
  case Nil
  then show ?case by simp
next
  case (Cons m ms)
  from Cons.prems obtain r where r: "ReleaseAndCommit E (calls w) m = Inr r"
    by (cases "ReleaseAndCommit E (calls w) m") (auto simp: Let_def)
  let ?w1 = "set_refs a (refs (vstate w a) @ [Some r]) (called (EvCommit m (Inr r)) w)"
  from Cons.prems r
  have "commit_outputs E a (done @ [None]) (map Some ms) ?w1 = Ret (None, outs', w')"
    by (simp add: Let_def)
  from Cons.IH [OF this] obtain rs where
    n: "length rs = length ms" "trace w' = trace ?w1 @ map commit_event (zip ms rs)"
       "refs (vstate w' a) = refs (vstate ?w1 a) @ map Some rs"
       "outs' = (done @ [None]) @ replicate (length ms) None"
    by blast
  let ?rs = "r # rs"
  from n have "length ?rs = length (m # ms)
       \<and> trace w' = trace w @ map commit_event (zip (m # ms) ?rs)
       \<and> refs (vstate w' a) = refs (vstate w a) @ map Some ?rs
       \<and> outs' = done @ replicate (length (m # ms)) None"
    by (simp add: set_refs_def commit_event_def replicate_app_Cons_same)
  then show ?case by blast
qed

lemma cleanup_nil_entries: "cleanup E (replicate n None) w = w"
  by (induction n) simp_all

lemma runExecOp_success:
  assumes "runExecOp E g meta ms w = Ret (None, w')"
  shows "\<exists>news rs. length news = length (outputs_declared ms) \<and> length rs = length news
       \<and> map (Ret \<circ> fst) news = map (\<lambda>m. getInputRefForIndex w g (m_Input m)) (outputs_declared ms)
       \<and> trace w' = trace w @ map new_event news @ [EvExec meta None] @ map commit_event (zip (map snd news) rs)
       \<and> refs (vstate w' (addr g)) = map Some rs"
proof -
  from assms obtain mounts outputs w1 where
    m: "exec_mounts E g ms Map.empty [] w = Ret (None, mounts, outputs, w1)"
    by (auto simp: runExecOp_def split: outcome.splits option.splits prod.splits)
  from exec_mounts_success [OF m] obtain news where
    n: "length news = length (outputs_declared ms)" "outputs = map (Some \<circ> snd) news"
       "trace w1 = trace w @ map new_event news"
       "map (Ret \<circ> fst) news = map (\<lambda>m. getInputRefForIndex w g (m_Input m)) (outputs_declared ms)"
    by auto
  from assms m have x: "w_Exec E (calls w1) meta mounts = None"
    by (auto simp: runExecOp_def Let_def split: option.splits)
  let ?w2 = "set_refs (addr g) [] (called (EvExec meta None) w1)"
  from assms m x n(2) obtain outs' w3 where
    c: "commit_outputs E (addr g) [] (map Some (map snd news)) ?w2 = Ret (None, outs', w3)"
    and w': "w' = cleanup E outs' w3"
    by (auto simp: runExecOp_def Let_def split: outcome.splits)
  from commit_outputs_success [OF c] obtain rs where
    r: "length rs = length (map snd news)"
       "trace w3 = trace ?w2 @ map commit_event (zip (map snd news) rs)"
       "refs (vstate w3 (addr g)) = refs (vstate ?w2 (addr g)) @ map Some rs"
       "outs' = [] @ replicate (length (map snd news)) None"
    by blast
  from w' r(4) have "w' = w3" by (simp add: cleanup_nil_entries)
  with n r have "length news = length (outputs_declared ms) \<and> length rs = length news
       \<and> map (Ret \<circ> fst) news = map (\<lambda>m. getInputRefForIndex w g (m_Input m)) (outputs_declared ms)
       \<and> trace w' = trace w @ map new_event news @ [EvExec meta None] @ map commit_event (zip (map snd news) rs)
       \<and> refs (vstate w' (addr g)) = map Some rs"
    by (simp add: set_refs_def)
  then show ?thesis by blast
qed

lemma notify_simps [simp]:
  "refs (vstate (notifyStarted E a d w) b) = refs (vstate w b)"
  "trace (notifyStarted E a d w) = trace w @ [EvStarted d]"
  "refs (vstate (notifyCompleted E a d w) b) = refs (vstate w b)"
  "trace (notifyCompleted E a d w) = trace w @ [EvCompleted d]"
  by (simp_all add: notifyStarted_def notifyCompleted_def called_def)

text \<open>
  C1. A vertex whose \<open>err\<close> is set or whose \<open>refs\<close> is non-empty is terminal: \<open>solve\<close>
  returns at once, with the whole state as it was (no input is solved, no collaborator
  is called, nothing is notified), and what it returns is the \<open>err\<close> field: the recorded
  error when one is set (it is checked first), success otherwise.
\<close>

theorem solve_terminal_returns_immediately:
  assumes "err (vstate w (addr g)) \<noteq> None \<or> refs (vstate w (addr g)) \<noteq> []"
  shows "solve E g w = Ret (err (vstate w (addr g)), w)"
  using assms by (cases g) (auto split: option.splits)

theorem solve_terminal_returns_immediately_witness:
  "err (vstate failed_world (addr vertex_B)) \<noteq> None
   \<and> solve ok_env vertex_B failed_world = Ret (Some (Errorf ''boom''), failed_world)
   \<and> refs (vstate solved_world (addr vertex_A)) \<noteq> []
   \<and> solve ok_env vertex_A solved_world = Ret (None, solved_world)"
proof -
  have e: "err (vstate failed_world (addr vertex_B)) \<noteq> None"
    by (simp add: failed_world_def vertex_B_def set_err_def)
  have ev: "err (vstate failed_world (addr vertex_B)) = Some (Errorf ''boom'')"
    by (simp add: failed_world_def vertex_B_def set_err_def)
  have r: "refs (vstate solved_world (addr vertex_A)) \<noteq> []"
    by (simp add: solved_world_def vertex_A_def set_refs_def)
  have rv: "err (vstate solved_world (addr vertex_A)) = None"
    by (simp add: solved_world_def vertex_A_def set_refs_def world0_def)
  from e have "solve ok_env vertex_B failed_world = Ret (err (vstate failed_world (addr vertex_B)), failed_world)"
    by (intro solve_terminal_returns_immediately) simp
  moreover from r have "solve ok_env vertex_A solved_world = Ret (err (vstate solved_world (addr vertex_A)), solved_world)"
    by (intro solve_terminal_returns_immediately) simp
  ultimately show ?thesis using e ev r rv by simp
qed

text \<open>
  C2. The claim fails as stated. After a successful worker invocation a commit can fail:
  \<open>runExecOp\<close> returns the error and \<open>refs\<close> holds only the outputs committed before
  it (in the first example below vertex \<open>B\<close> has one mount with output 0, the worker
  succeeds, the commit fails, and \<open>refs\<close> is empty). Nor does the code look at the
  declared output indices other than to compare them with \<open>-1\<close>: outputs are created,
  committed and appended in the order of the mounts (second example below).

  What holds: when \<open>solve\<close> dispatches an exec vertex and returns success, then after the
  inputs were solved and \<open>Started\<close> was notified, \<open>cm.New\<close> was called once for every
  mount with an output, in the order of the mounts and on the input ref of the mount;
  then the worker ran; then the mutable refs were committed one after the other in that
  same order; \<open>refs\<close> holds the results in that order, one per mount with an output.
\<close>

theorem exec_vertex_refs_after_successful_solve:
  assumes "body o' = Op_Exec meta ms"
    and "err (vstate w a) = None" and "refs (vstate w a) = []"
    and "solve E (OpVertex a o' d ins) w = Ret (None, w')"
  shows "\<exists>w1 news rs.
      solve_inputs E ins w = Ret (None, w1)
      \<and> length news = length (outputs_declared ms) \<and> length rs = length news
      \<and> map (Ret \<circ> fst) news
          = map (\<lambda>m. getInputRefForIndex w1 (OpVertex a o' d ins) (m_Input m)) (outputs_declared ms)
      \<and> trace w' = trace w1 @ [EvStarted d] @ map new_event news @ [EvExec meta None]
                     @ map commit_event (zip (map snd news) rs) @ [EvCompleted d]
      \<and> refs (vstate w' a) = map Some rs
      \<and> length (refs (vstate w' a)) = length (outputs_declared ms)"
proof -
  let ?g = "OpVertex a o' d ins"
  from assms(2-4) obtain w1 where i: "solve_inputs E ins w = Ret (None, w1)"
    by (auto split: outcome.splits option.splits prod.splits)
  from assms i obtain w2 where
    r: "runExecOp E ?g meta ms (notifyStarted E a d w1) = Ret (None, w2)"
    and w': "w' = notifyCompleted E a d w2"
    by (auto simp: dispatch_def split: outcome.splits option.splits)
  from runExecOp_success [OF r] obtain news rs where
    n: "length news = length (outputs_declared ms)" "length rs = length news"
       "map (Ret \<circ> fst) news
          = map (\<lambda>m. getInputRefForIndex (notifyStarted E a d w1) ?g (m_Input m)) (outputs_declared ms)"
       "trace w2 = trace (notifyStarted E a d w1) @ map new_event news @ [EvExec meta None]
                     @ map commit_event (zip (map snd news) rs)"
       "refs (vstate w2 (addr ?g)) = map Some rs"
    by blast
  have g: "\<And>i. getInputRefForIndex (notifyStarted E a d w1) ?g i = getInputRefForIndex w1 ?g i"
    by (rule getInputRefForIndex_refs) simp
  from i n w' g have "solve_inputs E ins w = Ret (None, w1)
      \<and> length news = length (outputs_declared ms) \<and> length rs = length news
      \<and> map (Ret \<circ> fst) news
          = map (\<lambda>m. getInputRefForIndex w1 ?g (m_Input m)) (outputs_declared ms)
      \<and> trace w' = trace w1 @ [EvStarted d] @ map new_event news @ [EvExec meta None]
                     @ map commit_event (zip (map snd news) rs) @ [EvCompleted d]
      \<and> refs (vstate w' a) = map Some rs
      \<and> length (refs (vstate w' a)) = length (outputs_declared ms)"
    by simp
  then show ?thesis by blast
qed

theorem exec_vertex_refs_after_successful_solve_witness:
  "map_outcome fst (solve ok_env vertex_C world0) = Ret None
   \<and> map_outcome (length \<circ> refs_at 2 \<circ> snd) (solve ok_env vertex_C world0)
       = Ret (length (outputs_declared
           [\<lparr>m_Input = 0, Dest = ''/'', Readonly = True, Output = SkipOutput\<rparr>,
            \<lparr>m_Input = 0, Dest = ''/out'', Readonly = False, Output = 0\<rparr>]))
   \<and> length (outputs_declared
           [\<lparr>m_Input = 0, Dest = ''/'', Readonly = True, Output = SkipOutput\<rparr>,
            \<lparr>m_Input = 0, Dest = ''/out'', Readonly = False, Output = 0\<rparr>]) = 1"
proof -
  let ?ms = "[\<lparr>m_Input = 0, Dest = ''/'', Readonly = True, Output = SkipOutput\<rparr>,
              \<lparr>m_Input = 0, Dest = ''/out'', Readonly = False, Output = 0\<rparr>]"
  let ?o = "\<lparr>body = Op_Exec sh_meta ?ms, Inputs = [\<lparr>Digest = ''sha256:a'', Index = 0\<rparr>]\<rparr>"
  have "\<exists>w'. solve ok_env vertex_C world0 = Ret (None, w')"
    by (simp add: ex_defs solver_defs SkipOutput_def)
  then obtain w' where s: "solve ok_env vertex_C world0 = Ret (None, w')" by blast
  then have s': "solve ok_env (OpVertex 2 ?o ''sha256:c'' [vertex_A]) world0 = Ret (None, w')"
    by (simp add: vertex_C_def)
  have b: "body ?o = Op_Exec sh_meta ?ms" by simp
  have e: "err (vstate world0 2) = None" and r: "refs (vstate world0 2) = []"
    by (simp_all add: world0_def)
  from exec_vertex_refs_after_successful_solve [OF b e r s']
  have "length (refs (vstate w' 2)) = length (outputs_declared ?ms)" by blast
  moreover have "length (outputs_declared ?ms) = 1"
    by (simp add: outputs_declared_def SkipOutput_def)
  ultimately show ?thesis using s by (simp add: refs_at_def)
qed

text \<open>
  Vertex \<open>B\<close> with collaborators whose commit fails: the worker has run, the commit of
  the one output fails, and \<open>B\<close> is left with no refs for its one declared output.
\<close>

theorem exec_refs_short_when_commit_fails:
  "map_outcome fst (solve commit_fails_env vertex_B world0)
     = Ret (Some (Wrapf (Errorf ''boom'') ''error committing''))
   \<and> map_outcome (trace \<circ> snd) (solve commit_fails_env vertex_B world0)
     = Ret [EvStarted ''sha256:a'',
            EvPull \<lparr>id_scheme = ''docker-image'', id_ref = ''docker-image://x''\<rparr> (Inr 1),
            EvCompleted ''sha256:a'', EvStarted ''sha256:b'', EvNew (Some 1) (Inr 4),
            EvExec sh_meta None, EvCommit 4 (Inl (Errorf ''boom'')), EvFreeze 4 (Inr 7),
            EvRelease (Some 7) None, EvCompleted ''sha256:b'']
   \<and> map_outcome (refs_at 1 \<circ> snd) (solve commit_fails_env vertex_B world0) = Ret []
   \<and> length (outputs_declared [\<lparr>m_Input = 0, Dest = ''/'', Readonly = False, Output = 0\<rparr>]) = 1"
  by (simp add: ex_defs solver_defs refs_at_def outputs_declared_def)

text \<open>
  Vertex \<open>E\<close> mounts the ref of \<open>A\<close> with output index 1 and then the ref of \<open>B\<close> with
  output index 0. The output on the ref of \<open>A\<close> is committed first and is \<open>refs[0]\<close>.
\<close>

lemma commits_follow_the_mounts_not_the_indices:
  "map_outcome (trace \<circ> snd) (solve ok_env vertex_E world0)
     = Ret [EvStarted ''sha256:a'',
            EvPull \<lparr>id_scheme = ''docker-image'', id_ref = ''docker-image://x''\<rparr> (Inr 1),
            EvCompleted ''sha256:a'', EvStarted ''sha256:b'', EvNew (Some 1) (Inr 4),
            EvExec sh_meta None, EvCommit 4 (Inr 6), EvCompleted ''sha256:b'',
            EvStarted ''sha256:e'', EvNew (Some 1) (Inr 9), EvNew (Some 6) (Inr 10),
            EvExec sh_meta None, EvCommit 9 (Inr 12), EvCommit 10 (Inr 13),
            EvCompleted ''sha256:e'']
   \<and> map_outcome (refs_at 4 \<circ> snd) (solve ok_env vertex_E world0) = Ret [Some 12, Some 13]"
  by (simp add: ex_defs vertex_E_def solver_defs refs_at_def)

text \<open>
  C3. The claim: only a terminal vertex with exactly one input and no operation of its
  own is replaced by its input. \<open>Solve\<close> replaces every vertex that has an input by its
  first input (the source marks the test with \<open>TODO: detect op_return better\<close>). Vertex
  \<open>B\<close> is an exec vertex on the source \<open>A\<close>: by the convention it is solved as it is;
  \<open>Solve\<close> registers and solves \<open>A\<close> alone, the worker is never invoked, \<open>B\<close> is left
  without refs, and the call reports success.
\<close>

theorem Solve_unwraps_vertex_with_own_operation:
  "effective_root vertex_B = vertex_B
   \<and> map_outcome fst (Solve ok_env ''job'' vertex_B world0) = Ret None
   \<and> map_outcome (job_of ''job'' \<circ> snd) (Solve ok_env ''job'' vertex_B world0) = Ret (Some vertex_A)
   \<and> map_outcome (trace \<circ> snd) (Solve ok_env ''job'' vertex_B world0)
     = Ret [EvStarted ''sha256:a'',
            EvPull \<lparr>id_scheme = ''docker-image'', id_ref = ''docker-image://x''\<rparr> (Inr 1),
            EvCompleted ''sha256:a'', EvRelease (Some 1) None]
   \<and> map_outcome (refs_at 1 \<circ> snd) (Solve ok_env ''job'' vertex_B world0) = Ret []"
  by (simp add: ex_defs solver_defs refs_at_def job_of_def Solve_def effective_root_def)

text \<open>
  The same with two inputs: of the diamond, \<open>Solve\<close> solves \<open>B\<close> and its input; \<open>C\<close>
  and \<open>D\<close> are never solved.
\<close>

lemma Solve_unwraps_vertex_with_two_inputs:
  "effective_root vertex_D = vertex_D
   \<and> map_outcome (job_of ''job'' \<circ> snd) (Solve ok_env ''job'' vertex_D world0) = Ret (Some vertex_B)
   \<and> map_outcome (refs_at 3 \<circ> snd) (Solve ok_env ''job'' vertex_D world0) = Ret []
   \<and> map_outcome (refs_at 2 \<circ> snd) (Solve ok_env ''job'' vertex_D world0) = Ret []"
  by (simp add: ex_defs solver_defs refs_at_def job_of_def Solve_def effective_root_def)

text \<open>A vertex that does fit the convention is unwrapped by both.\<close>

lemma Solve_unwraps_return_vertex:
  "effective_root vertex_R = vertex_B
   \<and> map_outcome (job_of ''job'' \<circ> snd) (Solve ok_env ''job'' vertex_R world0) = Ret (Some vertex_B)"
  by (simp add: ex_defs vertex_R_def solver_defs job_of_def Solve_def effective_root_def)

section \<open>Properties of the ref store\<close>

lemma upd_rec_simps [simp]:
  "recs (upd_rec r f s) = (recs s)(r := f (recs s r))"
  "hdls (upd_rec r f s) = hdls s" "records (upd_rec r f s) = records s"
  "c_trace (upd_rec r f s) = c_trace s" "c_calls (upd_rec r f s) = c_calls s"
  "next_hid (upd_rec r f s) = next_hid s" "spawned (upd_rec r f s) = spawned s"
  by (simp_all add: upd_rec_def)

lemma upd_hdl_simps [simp]:
  "recs (upd_hdl h f s) = recs s"
  "hdls (upd_hdl h f s) = (hdls s)(h := f (hdls s h))" "records (upd_hdl h f s) = records s"
  "c_trace (upd_hdl h f s) = c_trace s" "c_calls (upd_hdl h f s) = c_calls s"
  "next_hid (upd_hdl h f s) = next_hid s" "spawned (upd_hdl h f s) = spawned s"
  by (simp_all add: upd_hdl_def)

lemma logged_simps [simp]:
  "recs (logged e s) = recs s" "hdls (logged e s) = hdls s" "records (logged e s) = records s"
  "c_trace (logged e s) = c_trace s @ [e]" "c_calls (logged e s) = Suc (c_calls s)"
  "next_hid (logged e s) = next_hid s" "spawned (logged e s) = spawned s"
  by (simp_all add: logged_def)

lemma stamp_simps [simp]:
  "recs (stamp E r s) = (recs s)(r := (recs s r)\<lparr>md := updateLastUsed_md (time_Now E (c_calls s)) (md (recs s r))\<rparr>)"
  "hdls (stamp E r s) = hdls s" "records (stamp E r s) = records s"
  "c_trace (stamp E r s) = c_trace s" "c_calls (stamp E r s) = c_calls s"
  by (simp_all add: stamp_def)

lemma ID_of_simps [simp]:
  "ID_of (logged e s) r = ID_of s r"
  by (simp add: ID_of_def)

lemma Commit_md_frame:
  "Commit_md E r s = (e, s') \<Longrightarrow>
     hdls s' = hdls s \<and> records s' = records s
     \<and> (\<forall>x. x \<noteq> r \<longrightarrow> recs s' x = recs s x)
     \<and> (\<forall>x. parent (recs s' x) = parent (recs s x))
     \<and> (e = None \<longrightarrow> md (recs s' r) = commit_md (md (recs s r)))"
  by (auto simp: Commit_md_def Let_def split: option.splits)

lemma finalize_frame:
  assumes "finalize E r True s = (e, s')"
  shows "hdls s' = hdls s \<and> records s' = records s
     \<and> (\<forall>x. parent (recs s' x) = parent (recs s x))
     \<and> (\<forall>x. x \<noteq> r \<longrightarrow> md (recs s' x) = md (recs s x))"
proof (cases "equalMutable (recs s r)")
  case None
  with assms show ?thesis by (simp add: finalize_def)
next
  case (Some m)
  show ?thesis
  proof (cases "Snapshotter_Commit E (c_calls s) (ID_of s r) (ID_of s (rec_of (hdls s m)))")
    case (Some e1)
    with assms \<open>equalMutable (recs s r) = Some m\<close> show ?thesis
      by (auto simp: finalize_def Let_def)
  next
    case None
    let ?rm = "rec_of (hdls s m)"
    let ?s1 = "logged (EvSnapshotCommit (ID_of s r) (ID_of s ?rm) None) s"
    let ?s2 = "(upd_rec ?rm (\<lambda>c. c\<lparr>dead := True\<rparr>) ?s1)\<lparr>spawned := spawned ?s1 @ [?rm]\<rparr>"
    show ?thesis
    proof (cases "Lease_Create E (c_calls ?s2) (ID_of ?s2 r)")
      case (Some e2)
      with assms \<open>equalMutable (recs s r) = Some m\<close> None show ?thesis
        by (auto simp: finalize_def Let_def)
    next
      case lc: None
      let ?s3 = "logged (EvLeaseCreate (ID_of ?s2 r) None) ?s2"
      let ?ty = "''snapshots/'' @ Snapshotter_Name E"
      show ?thesis
      proof (cases "Lease_AddResource E (c_calls ?s3) (ID_of ?s3 r) (ID_of ?s3 r) ?ty")
        case (Some e3)
        with assms \<open>equalMutable (recs s r) = Some m\<close> None lc show ?thesis
          by (auto simp: finalize_def Let_def)
      next
        case la: None
        let ?s4 = "logged (EvLeaseAddResource (ID_of ?s3 r) (ID_of ?s3 r) ?ty None) ?s3"
        let ?s5 = "upd_rec r (\<lambda>c. c\<lparr>equalMutable := None, md := queue_md ClearEqualMutable (md c)\<rparr>) ?s4"
        from assms \<open>equalMutable (recs s r) = Some m\<close> None lc la
        have "Commit_md E r ?s5 = (e, s')" by (simp add: finalize_def Let_def)
        from Commit_md_frame [OF this] show ?thesis by auto
      qed
    qed
  qed
qed

lemma apply_update_queue:
  "apply_update u (m\<lparr>md_queue := q\<rparr>) = (apply_update u m)\<lparr>md_queue := q\<rparr>"
  by (cases u) simp_all

lemma fold_apply_update_queue:
  "fold apply_update us (m\<lparr>md_queue := q\<rparr>) = (fold apply_update us m)\<lparr>md_queue := q\<rparr>"
  by (induction us arbitrary: m) (simp_all add: apply_update_queue)

lemma commit_chain_updates:
  "commit_md (queue_md (SetBlobChainID bc) (queue_md (SetChainID c) (queue_md (SetBlob b) (queue_md (SetDiffID d) m))))
     = (fold apply_update (md_queue m) m)
         \<lparr>md_DiffID := d, md_Blob := b, md_ChainID := c, md_BlobChainID := bc, md_queue := []\<rparr>"
  by (simp add: commit_md_def queue_md_def fold_apply_update_queue)

text \<open>What a successful \<open>SetBlob\<close> on a record without a chain id leaves in the record.\<close>

lemma SetBlob_ref_success:
  assumes "getChainID (md (recs s (rec_of (hdls s sr)))) = []"
    and "SetBlob_ref E sr diffID blob s = (None, s')"
  shows "\<exists>s2.
    finalize E (rec_of (hdls s sr)) True (logged (EvContentInfo blob None) s) = (None, s2)
    \<and> (parent (recs s2 (rec_of (hdls s sr))) = None \<longrightarrow>
           getChainID (md (recs s' (rec_of (hdls s sr)))) = diffID
         \<and> getBlobChainID (md (recs s' (rec_of (hdls s sr)))) = identity_ChainID E [blob, diffID])
    \<and> (\<forall>p. parent (recs s2 (rec_of (hdls s sr))) = Some p \<longrightarrow>
           getChainID (md (recs s2 (rec_of (hdls s2 p)))) \<noteq> []
         \<and> getBlobChainID (md (recs s2 (rec_of (hdls s2 p)))) \<noteq> []
         \<and> getChainID (md (recs s' (rec_of (hdls s sr))))
             = identity_ChainID E [getChainID (md (recs s2 (rec_of (hdls s2 p)))), diffID]
         \<and> getBlobChainID (md (recs s' (rec_of (hdls s sr))))
             = identity_ChainID E [getBlobChainID (md (recs s2 (rec_of (hdls s2 p)))),
                                   identity_ChainID E [blob, diffID]])
    \<and> (\<forall>x. x \<noteq> rec_of (hdls s sr) \<longrightarrow> recs s' x = recs s2 x)"
proof -
  let ?r = "rec_of (hdls s sr)"
  let ?s1 = "logged (EvContentInfo blob None) s"
  have ci: "ContentStore_Info E (c_calls s) blob = None"
  proof (cases "ContentStore_Info E (c_calls s) blob")
    case (Some e)
    with assms(2) show ?thesis by (simp add: SetBlob_ref_def Let_def)
  qed simp
  have c1: "getChainID (md (recs ?s1 ?r)) = []" using assms(1) by simp
  obtain e2 s2 where f: "finalize E ?r True ?s1 = (e2, s2)" by (cases "finalize E ?r True ?s1")
  have e2: "e2 = None"
  proof (cases e2)
    case (Some e)
    with assms(2) ci c1 f show ?thesis by (simp add: SetBlob_ref_def Let_def)
  qed simp
  let ?pc = "case parent (recs s2 ?r) of None \<Rightarrow> [] | Some p \<Rightarrow> getChainID (md (recs s2 (rec_of (hdls s2 p))))"
  let ?pbc = "case parent (recs s2 ?r) of None \<Rightarrow> [] | Some p \<Rightarrow> getBlobChainID (md (recs s2 (rec_of (hdls s2 p))))"
  have np: "\<not> (parent (recs s2 ?r) \<noteq> None \<and> (?pc = [] \<or> ?pbc = []))"
  proof
    assume "parent (recs s2 ?r) \<noteq> None \<and> (?pc = [] \<or> ?pbc = [])"
    then have "SetBlob_ref E sr diffID blob s
        = (Some (Errorf ''failed to set blob for reference with non-addressable parent''), s2)"
      using ci c1 f e2 unfolding SetBlob_ref_def Let_def by simp
    with assms(2) show False by simp
  qed
  let ?s3 = "logged (EvLeaseAddResource (ID_of s2 ?r) blob ''content'' None) s2"
  let ?c = "if ?pc \<noteq> [] then identity_ChainID E [?pc, diffID] else diffID"
  let ?bc = "if ?pc \<noteq> [] then identity_ChainID E [?pbc, identity_ChainID E [blob, diffID]]
             else identity_ChainID E [blob, diffID]"
  let ?s4 = "upd_rec ?r (\<lambda>c. c\<lparr>md := queue_md (SetBlobChainID ?bc) (queue_md (SetChainID ?c)
               (queue_md (SetBlob blob) (queue_md (SetDiffID diffID) (md c))))\<rparr>) ?s3"
  have u: "SetBlob_ref E sr diffID blob s
      = (case Lease_AddResource E (c_calls s2) (ID_of s2 ?r) blob ''content'' of
           Some e \<Rightarrow> (Some e, logged (EvLeaseAddResource (ID_of s2 ?r) blob ''content'' (Some e)) s2)
         | None \<Rightarrow> Commit_md E ?r ?s4)"
  proof (cases "parent (recs s2 ?r)")
    case None
    then show ?thesis
      using ci c1 f e2 unfolding SetBlob_ref_def Let_def
      by (cases "Lease_AddResource E (c_calls s2) (ID_of s2 ?r) blob ''content''") simp_all
  next
    case (Some p)
    with np have "getChainID (md (recs s2 (rec_of (hdls s2 p)))) \<noteq> []"
      and "getBlobChainID (md (recs s2 (rec_of (hdls s2 p)))) \<noteq> []" by simp_all
    with Some show ?thesis
      using ci c1 f e2 unfolding SetBlob_ref_def Let_def
      by (cases "Lease_AddResource E (c_calls s2) (ID_of s2 ?r) blob ''content''") simp_all
  qed
  have la: "Lease_AddResource E (c_calls s2) (ID_of s2 ?r) blob ''content'' = None"
  proof (cases "Lease_AddResource E (c_calls s2) (ID_of s2 ?r) blob ''content''")
    case (Some e)
    with assms(2) u show ?thesis by simp
  qed simp
  from u la assms(2) have c: "Commit_md E ?r ?s4 = (None, s')" by simp
  from Commit_md_frame [OF c]
  have m: "md (recs s' ?r) = commit_md (md (recs ?s4 ?r))"
    and o: "\<forall>x. x \<noteq> ?r \<longrightarrow> recs s' x = recs ?s4 x" by auto
  from m have g: "getChainID (md (recs s' ?r)) = ?c" "getBlobChainID (md (recs s' ?r)) = ?bc"
    by (simp_all add: commit_chain_updates getChainID_def getBlobChainID_def)
  from o have o': "\<forall>x. x \<noteq> ?r \<longrightarrow> recs s' x = recs s2 x" by simp
  have f': "finalize E ?r True ?s1 = (None, s2)" using f e2 by simp
  have n: "parent (recs s2 ?r) = None \<longrightarrow>
           getChainID (md (recs s' ?r)) = diffID
         \<and> getBlobChainID (md (recs s' ?r)) = identity_ChainID E [blob, diffID]"
    using g by simp
  have p: "\<forall>p. parent (recs s2 ?r) = Some p \<longrightarrow>
           getChainID (md (recs s2 (rec_of (hdls s2 p)))) \<noteq> []
         \<and> getBlobChainID (md (recs s2 (rec_of (hdls s2 p)))) \<noteq> []
         \<and> getChainID (md (recs s' ?r))
             = identity_ChainID E [getChainID (md (recs s2 (rec_of (hdls s2 p)))), diffID]
         \<and> getBlobChainID (md (recs s' ?r))
             = identity_ChainID E [getBlobChainID (md (recs s2 (rec_of (hdls s2 p)))),
                                   identity_ChainID E [blob, diffID]]"
  proof (intro allI impI)
    fix p assume "parent (recs s2 ?r) = Some p"
    with g np show "getChainID (md (recs s2 (rec_of (hdls s2 p)))) \<noteq> []
         \<and> getBlobChainID (md (recs s2 (rec_of (hdls s2 p)))) \<noteq> []
         \<and> getChainID (md (recs s' ?r))
             = identity_ChainID E [getChainID (md (recs s2 (rec_of (hdls s2 p)))), diffID]
         \<and> getBlobChainID (md (recs s' ?r))
             = identity_ChainID E [getBlobChainID (md (recs s2 (rec_of (hdls s2 p)))),
                                   identity_ChainID E [blob, diffID]]"
      by simp
  qed
  from f' n p o' show ?thesis by (intro exI [of _ s2] conjI)
qed

lemmas cache_ex_defs = chain2_def store3_def no_record_def item_def ok_cache_env_def

lemmas cache_defs = SetBlob_ref_def finalize_def Commit_md_def commit_md_def queue_md_def
  getChainID_def getBlobChainID_def getCachePolicy_def ID_of_def Let_def

text \<open>
  C4. The claim fails as stated: \<open>SetBlob\<close> also succeeds, without writing anything, on
  a record that has a chain id already, and then the chain id is not derived from the
  \<open>diffID\<close> of the call (in the example below the root of a chain was given \<open>d0\<close>; a
  second call with \<open>d9\<close> succeeds and the chain id is still \<open>d0\<close>).

  What holds, for a record whose chain id was empty before the call and on which the call
  succeeds: without a parent the chain id is the \<open>diffID\<close> and the blob chain id is the
  chain id of \<open>[blob, diffID]\<close>; with a parent (another record) the chain id is the chain
  id of the parent's chain id and the \<open>diffID\<close>, the blob chain id that of the parent's
  blob chain id and the chain id of \<open>[blob, diffID]\<close>, and the ids of the parent are
  what they were.
\<close>

theorem SetBlob_chain_ids:
  assumes "getChainID (md (recs s (rec_of (hdls s sr)))) = []"
    and "SetBlob_ref E sr diffID blob s = (None, s')"
  shows "(parent (recs s (rec_of (hdls s sr))) = None \<longrightarrow>
            getChainID (md (recs s' (rec_of (hdls s sr)))) = diffID
          \<and> getBlobChainID (md (recs s' (rec_of (hdls s sr)))) = identity_ChainID E [blob, diffID])
       \<and> (\<forall>p. parent (recs s (rec_of (hdls s sr))) = Some p \<and> rec_of (hdls s p) \<noteq> rec_of (hdls s sr) \<longrightarrow>
            getChainID (md (recs s' (rec_of (hdls s sr))))
              = identity_ChainID E [getChainID (md (recs s (rec_of (hdls s p)))), diffID]
          \<and> getBlobChainID (md (recs s' (rec_of (hdls s sr))))
              = identity_ChainID E [getBlobChainID (md (recs s (rec_of (hdls s p)))),
                                    identity_ChainID E [blob, diffID]]
          \<and> getChainID (md (recs s' (rec_of (hdls s p)))) = getChainID (md (recs s (rec_of (hdls s p))))
          \<and> getBlobChainID (md (recs s' (rec_of (hdls s p)))) = getBlobChainID (md (recs s (rec_of (hdls s p)))))"
proof -
  let ?r = "rec_of (hdls s sr)"
  from SetBlob_ref_success [OF assms] obtain s2 where
    f: "finalize E ?r True (logged (EvContentInfo blob None) s) = (None, s2)"
    and n: "parent (recs s2 ?r) = None \<longrightarrow>
           getChainID (md (recs s' ?r)) = diffID
         \<and> getBlobChainID (md (recs s' ?r)) = identity_ChainID E [blob, diffID]"
    and q: "\<forall>p. parent (recs s2 ?r) = Some p \<longrightarrow>
           getChainID (md (recs s2 (rec_of (hdls s2 p)))) \<noteq> []
         \<and> getBlobChainID (md (recs s2 (rec_of (hdls s2 p)))) \<noteq> []
         \<and> getChainID (md (recs s' ?r))
             = identity_ChainID E [getChainID (md (recs s2 (rec_of (hdls s2 p)))), diffID]
         \<and> getBlobChainID (md (recs s' ?r))
             = identity_ChainID E [getBlobChainID (md (recs s2 (rec_of (hdls s2 p)))),
                                   identity_ChainID E [blob, diffID]]"
    and o: "\<forall>x. x \<noteq> ?r \<longrightarrow> recs s' x = recs s2 x"
    by (elim exE conjE)
  from finalize_frame [OF f]
  have h: "hdls s2 = hdls s" and p: "\<And>x. parent (recs s2 x) = parent (recs s x)"
    and m: "\<And>x. x \<noteq> ?r \<Longrightarrow> md (recs s2 x) = md (recs s x)"
    by auto
  have 1: "parent (recs s ?r) = None \<longrightarrow>
            getChainID (md (recs s' ?r)) = diffID
          \<and> getBlobChainID (md (recs s' ?r)) = identity_ChainID E [blob, diffID]"
    using n p [of ?r] by simp
  have 2: "getChainID (md (recs s' ?r))
              = identity_ChainID E [getChainID (md (recs s (rec_of (hdls s p)))), diffID]
          \<and> getBlobChainID (md (recs s' ?r))
              = identity_ChainID E [getBlobChainID (md (recs s (rec_of (hdls s p)))),
                                    identity_ChainID E [blob, diffID]]
          \<and> getChainID (md (recs s' (rec_of (hdls s p)))) = getChainID (md (recs s (rec_of (hdls s p))))
          \<and> getBlobChainID (md (recs s' (rec_of (hdls s p)))) = getBlobChainID (md (recs s (rec_of (hdls s p))))"
    if a: "parent (recs s ?r) = Some p" and b: "rec_of (hdls s p) \<noteq> ?r" for p
  proof -
    from a p [of ?r] have "parent (recs s2 ?r) = Some p" by simp
    with q h m [OF b] o b show ?thesis by simp
  qed
  from 1 2 show ?thesis by blast
qed

theorem SetBlob_chain_ids_witness:
  "getChainID (md (recs chain2 0)) = [] \<and> fst (SetBlob_ref ok_cache_env 1 ''sha256:d0'' ''sha256:b0'' chain2) = None
   \<and> getChainID (md (recs root_set 0)) = ''sha256:d0''
   \<and> getBlobChainID (md (recs root_set 0)) = ''H(sha256:b0;sha256:d0;)''
   \<and> getChainID (md (recs root_set 1)) = [] \<and> fst (SetBlob_ref ok_cache_env 2 ''sha256:d1'' ''sha256:b1'' root_set) = None
   \<and> getChainID (md (recs child_set 1)) = ''H(sha256:d0;sha256:d1;)''
   \<and> getBlobChainID (md (recs child_set 1)) = ''H(H(sha256:b0;sha256:d0;);H(sha256:b1;sha256:d1;);)''"
proof -
  have h: "rec_of (hdls chain2 1) = 0" "parent (recs chain2 0) = None"
    by (simp_all add: cache_ex_defs)
  have e0: "getChainID (md (recs chain2 0)) = []"
    by (simp add: cache_ex_defs cache_defs)
  have f0: "fst (SetBlob_ref ok_cache_env 1 ''sha256:d0'' ''sha256:b0'' chain2) = None"
    by (simp add: cache_ex_defs cache_defs)
  then have s0: "SetBlob_ref ok_cache_env 1 ''sha256:d0'' ''sha256:b0'' chain2 = (None, root_set)"
    by (simp add: root_set_def prod_eq_iff)
  from SetBlob_chain_ids [of chain2 1 ok_cache_env "''sha256:d0''" "''sha256:b0''" root_set] e0 s0 h
  have r: "getChainID (md (recs root_set 0)) = ''sha256:d0''"
    "getBlobChainID (md (recs root_set 0)) = identity_ChainID ok_cache_env [''sha256:b0'', ''sha256:d0'']"
    by simp_all
  have h1: "rec_of (hdls root_set 2) = 1" "parent (recs root_set 1) = Some 3" "rec_of (hdls root_set 3) = 0"
    by (simp_all add: root_set_def cache_ex_defs cache_defs)
  have e1: "getChainID (md (recs root_set 1)) = []"
    by (simp add: root_set_def cache_ex_defs cache_defs)
  have f1: "fst (SetBlob_ref ok_cache_env 2 ''sha256:d1'' ''sha256:b1'' root_set) = None"
    by (simp add: root_set_def cache_ex_defs cache_defs)
  then have s1: "SetBlob_ref ok_cache_env 2 ''sha256:d1'' ''sha256:b1'' root_set = (None, child_set)"
    by (simp add: child_set_def prod_eq_iff)
  from SetBlob_chain_ids [of root_set 2 ok_cache_env "''sha256:d1''" "''sha256:b1''" child_set] e1 s1 h1
  have c: "getChainID (md (recs child_set 1))
        = identity_ChainID ok_cache_env [getChainID (md (recs root_set 0)), ''sha256:d1'']"
    "getBlobChainID (md (recs child_set 1))
        = identity_ChainID ok_cache_env [getBlobChainID (md (recs root_set 0)),
            identity_ChainID ok_cache_env [''sha256:b1'', ''sha256:d1'']]"
    by simp_all
  from e0 f0 e1 f1 r c show ?thesis by (simp add: ok_cache_env_def)
qed

text \<open>
  The root of the chain, which has the chain id \<open>d0\<close> and no parent: \<open>SetBlob\<close> with
  \<open>d9\<close> succeeds and the chain id stays \<open>d0\<close>.
\<close>

theorem SetBlob_again_keeps_first_chain_id:
  "parent (recs root_set (rec_of (hdls root_set 1))) = None
   \<and> fst (SetBlob_ref ok_cache_env 1 ''sha256:d9'' ''sha256:b9'' root_set) = None
   \<and> getChainID (md (recs (snd (SetBlob_ref ok_cache_env 1 ''sha256:d9'' ''sha256:b9'' root_set))
                           (rec_of (hdls root_set 1)))) = ''sha256:d0''
   \<and> ''sha256:d0'' \<noteq> ''sha256:d9''"
  by (simp add: root_set_def cache_ex_defs cache_defs)

text \<open>
  C5. On a record whose chain id is non-empty \<open>SetBlob\<close> only asks the content store
  for the blob and returns what that returns: no record, handle or entry of the live map
  changes, so chain id and blob chain id are what they were. On a record without a chain
  id whose parent (another record) lacks its chain id or its blob chain id, \<open>SetBlob\<close>
  returns an error.
\<close>

theorem SetBlob_idempotent_and_needs_parent_ids:
  "(getChainID (md (recs s (rec_of (hdls s sr)))) \<noteq> [] \<longrightarrow>
      SetBlob_ref E sr diffID blob s
        = (ContentStore_Info E (c_calls s) blob,
           logged (EvContentInfo blob (ContentStore_Info E (c_calls s) blob)) s)
      \<and> recs (snd (SetBlob_ref E sr diffID blob s)) = recs s
      \<and> hdls (snd (SetBlob_ref E sr diffID blob s)) = hdls s
      \<and> records (snd (SetBlob_ref E sr diffID blob s)) = records s)
   \<and> (\<forall>p. getChainID (md (recs s (rec_of (hdls s sr)))) = []
          \<and> parent (recs s (rec_of (hdls s sr))) = Some p
          \<and> rec_of (hdls s p) \<noteq> rec_of (hdls s sr)
          \<and> (getChainID (md (recs s (rec_of (hdls s p)))) = []
             \<or> getBlobChainID (md (recs s (rec_of (hdls s p)))) = []) \<longrightarrow>
        fst (SetBlob_ref E sr diffID blob s) \<noteq> None)"
proof (intro conjI impI allI)
  assume "getChainID (md (recs s (rec_of (hdls s sr)))) \<noteq> []"
  then show a: "SetBlob_ref E sr diffID blob s
        = (ContentStore_Info E (c_calls s) blob,
           logged (EvContentInfo blob (ContentStore_Info E (c_calls s) blob)) s)"
    by (cases "ContentStore_Info E (c_calls s) blob") (simp_all add: SetBlob_ref_def Let_def)
  show "recs (snd (SetBlob_ref E sr diffID blob s)) = recs s"
    and "hdls (snd (SetBlob_ref E sr diffID blob s)) = hdls s"
    and "records (snd (SetBlob_ref E sr diffID blob s)) = records s"
    unfolding a by simp_all
next
  fix p
  let ?r = "rec_of (hdls s sr)"
  assume a: "getChainID (md (recs s ?r)) = [] \<and> parent (recs s ?r) = Some p
          \<and> rec_of (hdls s p) \<noteq> ?r
          \<and> (getChainID (md (recs s (rec_of (hdls s p)))) = []
             \<or> getBlobChainID (md (recs s (rec_of (hdls s p)))) = [])"
  show "fst (SetBlob_ref E sr diffID blob s) \<noteq> None"
  proof
    assume "fst (SetBlob_ref E sr diffID blob s) = None"
    then obtain s' where s: "SetBlob_ref E sr diffID blob s = (None, s')"
      by (cases "SetBlob_ref E sr diffID blob s") auto
    from a have c: "getChainID (md (recs s ?r)) = []" by simp
    from SetBlob_ref_success [OF c s] obtain s2 where
      f: "finalize E ?r True (logged (EvContentInfo blob None) s) = (None, s2)"
      and q: "\<forall>p. parent (recs s2 ?r) = Some p \<longrightarrow>
           getChainID (md (recs s2 (rec_of (hdls s2 p)))) \<noteq> []
         \<and> getBlobChainID (md (recs s2 (rec_of (hdls s2 p)))) \<noteq> []
         \<and> getChainID (md (recs s' ?r))
             = identity_ChainID E [getChainID (md (recs s2 (rec_of (hdls s2 p)))), diffID]
         \<and> getBlobChainID (md (recs s' ?r))
             = identity_ChainID E [getBlobChainID (md (recs s2 (rec_of (hdls s2 p)))),
                                   identity_ChainID E [blob, diffID]]"
      by (elim exE conjE)
    from finalize_frame [OF f]
    have h: "hdls s2 = hdls s" and pp: "\<And>x. parent (recs s2 x) = parent (recs s x)"
      and m: "\<And>x. x \<noteq> ?r \<Longrightarrow> md (recs s2 x) = md (recs s x)"
      by auto
    from a pp [of ?r] have "parent (recs s2 ?r) = Some p" by simp
    with q h m [of "rec_of (hdls s p)"] a show False by auto
  qed
qed

theorem SetBlob_idempotent_and_needs_parent_ids_witness:
  "getChainID (md (recs root_set (rec_of (hdls root_set 1)))) \<noteq> []
   \<and> fst (SetBlob_ref ok_cache_env 1 ''sha256:d9'' ''sha256:b9'' root_set) = None
   \<and> recs (snd (SetBlob_ref ok_cache_env 1 ''sha256:d9'' ''sha256:b9'' root_set)) = recs root_set
   \<and> getChainID (md (recs chain2 (rec_of (hdls chain2 2)))) = []
   \<and> parent (recs chain2 (rec_of (hdls chain2 2))) = Some 3
   \<and> getChainID (md (recs chain2 (rec_of (hdls chain2 3)))) = []
   \<and> fst (SetBlob_ref ok_cache_env 2 ''sha256:d1'' ''sha256:b1'' chain2) \<noteq> None"
proof -
  have a: "getChainID (md (recs root_set (rec_of (hdls root_set 1)))) \<noteq> []"
    by (simp add: root_set_def cache_ex_defs cache_defs)
  have b: "getChainID (md (recs chain2 (rec_of (hdls chain2 2)))) = []"
    "parent (recs chain2 (rec_of (hdls chain2 2))) = Some 3"
    "rec_of (hdls chain2 3) \<noteq> rec_of (hdls chain2 2)"
    "getChainID (md (recs chain2 (rec_of (hdls chain2 3)))) = []"
    by (simp_all add: cache_ex_defs cache_defs)
  have c: "ContentStore_Info ok_cache_env (c_calls root_set) ''sha256:b9'' = None"
    by (simp add: ok_cache_env_def)
  from SetBlob_idempotent_and_needs_parent_ids [of root_set 1 ok_cache_env "''sha256:d9''" "''sha256:b9''"] a c
  have 1: "fst (SetBlob_ref ok_cache_env 1 ''sha256:d9'' ''sha256:b9'' root_set) = None"
    "recs (snd (SetBlob_ref ok_cache_env 1 ''sha256:d9'' ''sha256:b9'' root_set)) = recs root_set"
    by simp_all
  from SetBlob_idempotent_and_needs_parent_ids [of chain2 2 ok_cache_env "''sha256:d1''" "''sha256:b1''"] b
  have 2: "fst (SetBlob_ref ok_cache_env 2 ''sha256:d1'' ''sha256:b1'' chain2) \<noteq> None"
    by blast
  from a b 1 2 show ?thesis by simp
qed

text \<open>
  C9. Releasing a mutable handle whose record has the retain policy, or whose record has
  not but the record committed from it has, returns without error and keeps the record:
  the live map is what it was, no collaborator is called (so no lease is deleted), every
  other record, the parent's among them, is untouched (the parent is not released), and
  in the record itself only the handle is gone from \<open>refs\<close> and, when the handle
  triggered, last-used is stamped (the trigger is cleared). So the record is deleted only
  when neither record has the retain policy.
\<close>

theorem mutable_release_keeps_retained_record:
  assumes "kept_by_policy s sr"
  shows "\<exists>s'. mut_release (Suc n) E sr s = Some (None, s')
     \<and> records s' = records s \<and> c_trace s' = c_trace s
     \<and> (\<forall>x. x \<noteq> rec_of (hdls s sr) \<longrightarrow> recs s' x = recs s x)
     \<and> recs s' (rec_of (hdls s sr))
         = (recs s (rec_of (hdls s sr)))
             \<lparr>cr_refs := removeAll sr (cr_refs (recs s (rec_of (hdls s sr)))),
              md := (if triggerLastUsed (hdls s sr)
                     then updateLastUsed_md (time_Now E (c_calls s)) (md (recs s (rec_of (hdls s sr))))
                     else md (recs s (rec_of (hdls s sr))))\<rparr>
     \<and> (\<forall>h. h \<noteq> sr \<longrightarrow> hdls s' h = hdls s h)
     \<and> hdls s' sr = (hdls s sr)\<lparr>triggerLastUsed := False\<rparr>"
proof -
  let ?r = "rec_of (hdls s sr)"
  let ?s1 = "upd_rec ?r (\<lambda>c. c\<lparr>cr_refs := removeAll sr (cr_refs c)\<rparr>) s"
  have m: "mut_release (Suc n) E sr s = Some (None, touch E sr ?s1)"
    using assms by (auto simp: kept_by_policy_def Let_def split: option.splits)
  show ?thesis
    unfolding m by (cases "triggerLastUsed (hdls s sr)") (auto simp: touch_def)
qed

theorem mutable_release_keeps_retained_record_witness:
  "kept_by_policy store3 20
   \<and> getCachePolicy (md (recs store3 (rec_of (hdls store3 20)))) = cachePolicyDefault
   \<and> map_option fst (mut_release 1 ok_cache_env 20 store3) = Some None
   \<and> map_option (records \<circ> snd) (mut_release 1 ok_cache_env 20 store3) = Some (records store3)
   \<and> map_option (c_trace \<circ> snd) (mut_release 1 ok_cache_env 20 store3) = Some []
   \<and> map_option (refs_of 0 \<circ> snd) (mut_release 1 ok_cache_env 20 store3) = Some [10, 11]
   \<and> map_option (refs_of 1 \<circ> snd) (mut_release 1 ok_cache_env 20 store3) = Some []
   \<and> map_option (last_used 1 \<circ> snd) (mut_release 1 ok_cache_env 20 store3) = Some (1, Some 100)"
proof -
  have k: "kept_by_policy store3 20"
    by (simp add: kept_by_policy_def cache_ex_defs cache_defs)
  have p: "getCachePolicy (md (recs store3 (rec_of (hdls store3 20)))) = cachePolicyDefault"
    by (simp add: cache_ex_defs cache_defs)
  have h: "rec_of (hdls store3 20) = 1" "triggerLastUsed (hdls store3 20)"
    by (simp_all add: cache_ex_defs)
  from mutable_release_keeps_retained_record [OF k, of 0 ok_cache_env] obtain s' where
    m: "mut_release (Suc 0) ok_cache_env 20 store3 = Some (None, s')"
    and r: "records s' = records store3" "c_trace s' = c_trace store3"
    and o: "\<forall>x. x \<noteq> rec_of (hdls store3 20) \<longrightarrow> recs s' x = recs store3 x"
    and u: "recs s' (rec_of (hdls store3 20))
         = (recs store3 (rec_of (hdls store3 20)))
             \<lparr>cr_refs := removeAll 20 (cr_refs (recs store3 (rec_of (hdls store3 20)))),
              md := (if triggerLastUsed (hdls store3 20)
                     then updateLastUsed_md (time_Now ok_cache_env (c_calls store3))
                            (md (recs store3 (rec_of (hdls store3 20))))
                     else md (recs store3 (rec_of (hdls store3 20))))\<rparr>"
    by (elim exE conjE)
  from o h have r0: "recs s' 0 = recs store3 0" by simp
  from u h have r1: "recs s' 1 = (recs store3 1)
      \<lparr>cr_refs := removeAll 20 (cr_refs (recs store3 1)),
       md := updateLastUsed_md (time_Now ok_cache_env (c_calls store3)) (md (recs store3 1))\<rparr>"
    by simp
  have "refs_of 0 s' = [10, 11]" "refs_of 1 s' = []" "last_used 1 s' = (1, Some 100)"
    "c_trace s' = []"
    unfolding refs_of_def last_used_def r0 r1 r
    by (simp_all add: cache_ex_defs updateLastUsed_md_def)
  with k p m r show ?thesis by simp
qed

subsection \<open>The release cascade\<close>

lemma shape_of_simps [simp]:
  "shape_of (upd_rec r (\<lambda>c. c\<lparr>cr_refs := X c\<rparr>) s) = shape_of s"
  "shape_of (upd_rec r (\<lambda>c. c\<lparr>md := Y c\<rparr>) s) = shape_of s"
  "shape_of (upd_rec r (\<lambda>c. c\<lparr>view := V c, viewMount := W c\<rparr>) s) = shape_of s"
  "shape_of (upd_hdl h (\<lambda>x. x\<lparr>triggerLastUsed := b\<rparr>) s) = shape_of s"
  "shape_of (logged ev s) = shape_of s"
  "shape_of (stamp E r s) = shape_of s"
  "shape_of (s\<lparr>records := R\<rparr>) = shape_of s"
  by (auto simp: shape_of_def stamp_def fun_eq_iff)

lemma shape_of_touch [simp]: "shape_of (touch E h s) = shape_of s"
  by (simp add: touch_def)

lemma shape_of_release_view [simp]: "shape_of (snd (release_view E r s)) = shape_of s"
  by (simp add: release_view_def Let_def split: option.splits)

lemma shape_of_lease_delete [simp]: "shape_of (snd (lease_delete E i s)) = shape_of s"
  by (simp add: lease_delete_def Let_def)

lemma shape_of_md_clear [simp]: "shape_of (snd (md_clear E i s)) = shape_of s"
  by (simp add: md_clear_def Let_def)

lemma shape_of_fields:
  "shape_of s' = shape_of s \<Longrightarrow>
     parent (recs s' r) = parent (recs s r) \<and> equalMutable (recs s' r) = equalMutable (recs s r)
     \<and> equalImmutable (recs s' r) = equalImmutable (recs s r) \<and> rec_of (hdls s' h) = rec_of (hdls s h)"
  by (auto simp: shape_of_def fun_eq_iff)

lemma release_keeps_shape:
  "(\<forall>E h s e s'. imm_release n E h s = Some (e, s') \<longrightarrow> shape_of s' = shape_of s)
   \<and> (\<forall>E h s e s'. mut_release n E h s = Some (e, s') \<longrightarrow> shape_of s' = shape_of s)
   \<and> (\<forall>E h s e s'. mut_release_rest n E h s = Some (e, s') \<longrightarrow> shape_of s' = shape_of s)
   \<and> (\<forall>E r b s e s'. remove n E r b s = Some (e, s') \<longrightarrow> shape_of s' = shape_of s)"
proof (induction n)
  case 0
  show ?case by simp
next
  case (Suc n)
  from Suc have ih_imm: "\<And>E h s e s'. imm_release n E h s = Some (e, s') \<Longrightarrow> shape_of s' = shape_of s"
    by auto
  from Suc have ih_mut: "\<And>E h s e s'. mut_release n E h s = Some (e, s') \<Longrightarrow> shape_of s' = shape_of s"
    by auto
  from Suc have ih_rest: "\<And>E h s e s'. mut_release_rest n E h s = Some (e, s') \<Longrightarrow> shape_of s' = shape_of s"
    by auto
  from Suc have ih_rem: "\<And>E r b s e s'. remove n E r b s = Some (e, s') \<Longrightarrow> shape_of s' = shape_of s"
    by auto
  have 1: "shape_of s' = shape_of s" if a: "imm_release (Suc n) E h s = Some (e, s')" for E h s e s'
  proof -
    let ?r = "rec_of (hdls s h)"
    let ?s1 = "upd_rec ?r (\<lambda>c. c\<lparr>cr_refs := removeAll h (cr_refs c)\<rparr>) s"
    let ?s2 = "(if updateLastUsedNow ?s1 h then
                  (case equalMutable (recs ?s1 ?r) of
                     None \<Rightarrow> stamp E ?r ?s1
                   | Some m \<Rightarrow> upd_hdl m (\<lambda>x. x\<lparr>triggerLastUsed := True\<rparr>) (stamp E ?r ?s1))
                else ?s1)"
    have s2: "shape_of ?s2 = shape_of s" by (simp split: option.splits)
    show ?thesis
    proof (cases "length (cr_refs (recs ?s2 ?r)) = 0")
      case False
      with a have "s' = ?s2" by (simp add: Let_def)
      with s2 show ?thesis by simp
    next
      case True
      obtain e3 s3 where v: "release_view E ?r ?s2 = (e3, s3)" by (cases "release_view E ?r ?s2")
      then have s3: "shape_of s3 = shape_of s"
        using shape_of_release_view [of E ?r ?s2] s2 by simp
      show ?thesis
      proof (cases e3)
        case (Some x)
        with a True v have "s' = s3" by (simp add: Let_def)
        with s3 show ?thesis by simp
      next
        case None
        show ?thesis
        proof (cases "equalMutable (recs s3 ?r)")
          case n2: None
          with a True v None have "s' = s3" by (simp add: Let_def)
          with s3 show ?thesis by simp
        next
          case (Some m)
          with a True v None obtain e4 where "mut_release n E m s3 = Some (e4, s')"
            by (auto simp: Let_def split: option.splits)
          from ih_mut [OF this] s3 show ?thesis by simp
        qed
      qed
    qed
  qed
  have 4: "shape_of s' = shape_of s" if a: "remove (Suc n) E r b s = Some (e, s')" for E r b s e s'
  proof -
    let ?s1 = "s\<lparr>records := (records s)(ID_of s r := None)\<rparr>"
    obtain e2 s2 where p: "(case parent (recs ?s1 r) of None \<Rightarrow> Some (None, ?s1)
            | Some p \<Rightarrow> imm_release n E p ?s1) = Some (e2, s2)"
      using a by (auto simp: Let_def split: option.splits)
    have s2: "shape_of s2 = shape_of s"
    proof (cases "parent (recs ?s1 r)")
      case None
      with p show ?thesis by auto
    next
      case (Some q)
      with p have "imm_release n E q ?s1 = Some (e2, s2)" by simp
      from ih_imm [OF this] show ?thesis by simp
    qed
    show ?thesis
    proof (cases e2)
      case (Some x)
      with a p have "s' = s2" by (simp add: Let_def)
      with s2 show ?thesis by simp
    next
      case None
      let ?l = "if b then lease_delete E (ID_of s2 r) s2 else (None, s2)"
      obtain e3 s3 where l: "?l = (e3, s3)" by (cases ?l)
      then have s3: "shape_of s3 = shape_of s"
        using shape_of_lease_delete [of E "ID_of s2 r" s2] s2 by (cases b) auto
      show ?thesis
      proof (cases e3)
        case (Some x)
        with a p None l have "s' = s3" by (simp add: Let_def)
        with s3 show ?thesis by simp
      next
        case n3: None
        with a p None l have "s' = snd (md_clear E (ID_of s3 r) s3)"
          by (auto simp: Let_def)
        with s3 show ?thesis by simp
      qed
    qed
  qed
  have 3: "shape_of s' = shape_of s" if a: "mut_release_rest (Suc n) E h s = Some (e, s')" for E h s e s'
  proof (cases "parent (recs s (rec_of (hdls s h)))")
    case None
    with a have "remove n E (rec_of (hdls s h)) True s = Some (e, s')" by (simp add: Let_def)
    from ih_rem [OF this] show ?thesis .
  next
    case (Some p)
    with a obtain e1 s1 where i: "imm_release n E p s = Some (e1, s1)"
      by (auto simp: Let_def split: option.splits)
    from ih_imm [OF i] have s1: "shape_of s1 = shape_of s" .
    show ?thesis
    proof (cases e1)
      case (Some x)
      with a i \<open>parent (recs s (rec_of (hdls s h))) = Some p\<close> have "s' = s1" by (simp add: Let_def)
      with s1 show ?thesis by simp
    next
      case None
      with a i \<open>parent (recs s (rec_of (hdls s h))) = Some p\<close>
      have "remove n E (rec_of (hdls s h)) True s1 = Some (e, s')" by (simp add: Let_def)
      from ih_rem [OF this] s1 show ?thesis by simp
    qed
  qed
  have 2: "shape_of s' = shape_of s" if a: "mut_release (Suc n) E h s = Some (e, s')" for E h s e s'
  proof -
    let ?r = "rec_of (hdls s h)"
    let ?s1 = "upd_rec ?r (\<lambda>c. c\<lparr>cr_refs := removeAll h (cr_refs c)\<rparr>) s"
    have s1: "shape_of ?s1 = shape_of s" by simp
    show ?thesis
    proof (cases "getCachePolicy (md (recs ?s1 ?r)) \<noteq> cachePolicyRetain")
      case False
      with a have "s' = touch E h ?s1" by (simp add: Let_def)
      then show ?thesis by simp
    next
      case True
      show ?thesis
      proof (cases "equalImmutable (recs ?s1 ?r)")
        case None
        with a True have "mut_release_rest n E h ?s1 = Some (e, s')" by (simp add: Let_def)
        from ih_rest [OF this] show ?thesis by simp
      next
        case (Some i)
        show ?thesis
        proof (cases "getCachePolicy (md (recs ?s1 (rec_of (hdls ?s1 i)))) = cachePolicyRetain")
          case r: True
          with a True Some have "s' = touch E h ?s1" by (simp add: Let_def)
          then show ?thesis by simp
        next
          case r: False
          with a True Some obtain e2 s2 where
            m: "remove n E (rec_of (hdls ?s1 i)) False ?s1 = Some (e2, s2)"
            by (auto simp: Let_def split: option.splits)
          from ih_rem [OF m] have s2: "shape_of s2 = shape_of s" by simp
          show ?thesis
          proof (cases e2)
            case (Some x)
            with a True \<open>equalImmutable (recs ?s1 ?r) = Some i\<close> r m have "s' = s2"
              by (simp add: Let_def)
            with s2 show ?thesis by simp
          next
            case None
            with a True \<open>equalImmutable (recs ?s1 ?r) = Some i\<close> r m
            have "mut_release_rest n E h s2 = Some (e, s')" by (simp add: Let_def)
            from ih_rest [OF this] s2 show ?thesis by simp
          qed
        qed
      qed
    qed
  qed
  from 1 2 3 4 show ?case by blast
qed

lemma imm_release_shape: "imm_release n E h s = Some (e, s') \<Longrightarrow> shape_of s' = shape_of s"
  using release_keeps_shape [of n] by auto

lemma mut_release_shape: "mut_release n E h s = Some (e, s') \<Longrightarrow> shape_of s' = shape_of s"
  using release_keeps_shape [of n] by auto

lemma mut_release_rest_shape: "mut_release_rest n E h s = Some (e, s') \<Longrightarrow> shape_of s' = shape_of s"
  using release_keeps_shape [of n] by auto

lemma remove_shape: "remove n E r b s = Some (e, s') \<Longrightarrow> shape_of s' = shape_of s"
  using release_keeps_shape [of n] by auto

lemma ranked_shape: "shape_of s' = shape_of s \<Longrightarrow> ranked rk s' = ranked rk s"
  by (simp add: ranked_def shape_of_def fun_eq_iff)

lemma ranked_parent: "ranked rk s \<Longrightarrow> parent (recs s r) = Some p \<Longrightarrow> rk (rec_of (hdls s p)) < rk r"
  by (simp add: ranked_def)

lemma ranked_equalMutable:
  "ranked rk s \<Longrightarrow> equalMutable (recs s r) = Some m \<Longrightarrow> rk (rec_of (hdls s m)) \<le> rk r \<and> rec_of (hdls s m) \<noteq> r"
  by (simp add: ranked_def)

lemma ranked_equalImmutable:
  "ranked rk s \<Longrightarrow> equalImmutable (recs s r) = Some i \<Longrightarrow> rk (rec_of (hdls s i)) \<le> rk r"
  by (simp add: ranked_def)

lemma release_view_recs: "release_view E r s = (e, s') \<Longrightarrow> x \<noteq> r \<Longrightarrow> recs s' x = recs s x"
  by (auto simp: release_view_def Let_def split: option.splits)

lemma release_view_md: "release_view E r s = (e, s') \<Longrightarrow> md (recs s' x) = md (recs s x)"
  by (auto simp: release_view_def Let_def split: option.splits)

lemma lease_delete_recs: "lease_delete E i s = (e, s') \<Longrightarrow> recs s' = recs s"
  by (auto simp: lease_delete_def Let_def)

lemma md_clear_recs: "recs (snd (md_clear E i s)) = recs s"
  by (simp add: md_clear_def Let_def)

lemma touch_md: "x \<noteq> rec_of (hdls s h) \<Longrightarrow> md (recs (touch E h s) x) = md (recs s x)"
  by (simp add: touch_def)

lemma imm_okD:
  assumes "imm_ok rk n" and "ranked rk s" and "4 * rk (rec_of (hdls s h)) + 4 \<le> n"
  obtains e s' where "imm_release n E h s = Some (e, s')"
    and "\<And>x. rk (rec_of (hdls s h)) < rk x \<Longrightarrow> md (recs s' x) = md (recs s x)"
proof -
  from assms obtain e s' where a: "imm_release n E h s = Some (e, s')"
    and b: "\<forall>x. rk (rec_of (hdls s h)) \<le> rk x \<and> x \<noteq> rec_of (hdls s h)
               \<and> (\<forall>m. equalMutable (recs s (rec_of (hdls s h))) = Some m \<longrightarrow> x \<noteq> rec_of (hdls s m))
               \<longrightarrow> md (recs s' x) = md (recs s x)"
    unfolding imm_ok_def by meson
  have "md (recs s' x) = md (recs s x)" if "rk (rec_of (hdls s h)) < rk x" for x
  proof -
    have 1: "\<forall>m. equalMutable (recs s (rec_of (hdls s h))) = Some m \<longrightarrow> x \<noteq> rec_of (hdls s m)"
      using ranked_equalMutable [OF assms(2)] that by fastforce
    from that have 2: "rk (rec_of (hdls s h)) \<le> rk x" and 3: "x \<noteq> rec_of (hdls s h)" by auto
    from b [rule_format, of x] 1 2 3 show ?thesis by simp
  qed
  with a that show ?thesis by blast
qed

lemma remove_step:
  assumes imm: "imm_ok rk n" and r: "ranked rk s" and f: "4 * rk r + 1 \<le> Suc n"
  shows "\<exists>e s'. remove (Suc n) E r b s = Some (e, s')
        \<and> (\<forall>x. rk r \<le> rk x \<longrightarrow> md (recs s' x) = md (recs s x))"
proof -
  let ?s1 = "s\<lparr>records := (records s)(ID_of s r := None)\<rparr>"
  have r1: "ranked rk ?s1" using r ranked_shape [of ?s1 s rk] by simp
  let ?c = "case parent (recs ?s1 r) of None \<Rightarrow> Some (None, ?s1) | Some p \<Rightarrow> imm_release n E p ?s1"
  have "\<exists>e2 s2. ?c = Some (e2, s2) \<and> (\<forall>x. rk r \<le> rk x \<longrightarrow> md (recs s2 x) = md (recs s x))"
  proof (cases "parent (recs ?s1 r)")
    case None
    then show ?thesis by simp
  next
    case (Some p)
    from ranked_parent [OF r1 Some] have lt: "rk (rec_of (hdls ?s1 p)) < rk r" .
    with f have "4 * rk (rec_of (hdls ?s1 p)) + 4 \<le> n" by simp
    from imm_okD [OF imm r1 this, of E] obtain e2 s2 where
      i: "imm_release n E p ?s1 = Some (e2, s2)"
      and fr: "\<And>x. rk (rec_of (hdls ?s1 p)) < rk x \<Longrightarrow> md (recs s2 x) = md (recs ?s1 x)"
      by blast
    have "\<forall>x. rk r \<le> rk x \<longrightarrow> md (recs s2 x) = md (recs s x)"
    proof (intro allI impI)
      fix x assume "rk r \<le> rk x"
      with lt have "rk (rec_of (hdls ?s1 p)) < rk x" by simp
      from fr [OF this] show "md (recs s2 x) = md (recs s x)" by simp
    qed
    with Some i show ?thesis by simp
  qed
  then obtain e2 s2 where c: "?c = Some (e2, s2)"
    and fr2: "\<forall>x. rk r \<le> rk x \<longrightarrow> md (recs s2 x) = md (recs s x)" by blast
  show ?thesis
  proof (cases e2)
    case (Some x)
    with c have "remove (Suc n) E r b s = Some (Some x, s2)" by (simp add: Let_def)
    with fr2 show ?thesis by simp
  next
    case None
    let ?l = "if b then lease_delete E (ID_of s2 r) s2 else (None, s2)"
    obtain e3 s3 where l: "?l = (e3, s3)" by (cases ?l)
    then have s3: "recs s3 = recs s2"
      using lease_delete_recs [of E "ID_of s2 r" s2 e3 s3] by (cases b) auto
    show ?thesis
    proof (cases e3)
      case (Some x)
      with c None l have "remove (Suc n) E r b s = Some (Some (Wrapf x ''failed to remove''), s3)"
        by (simp add: Let_def)
      with fr2 s3 show ?thesis by simp
    next
      case n3: None
      with c None l have "remove (Suc n) E r b s = Some (md_clear E (ID_of s3 r) s3)"
        by (simp add: Let_def)
      then have "remove (Suc n) E r b s
          = Some (fst (md_clear E (ID_of s3 r) s3), snd (md_clear E (ID_of s3 r) s3))"
        by simp
      moreover have "\<forall>x. rk r \<le> rk x \<longrightarrow> md (recs (snd (md_clear E (ID_of s3 r) s3)) x) = md (recs s x)"
        using fr2 s3 by (simp add: md_clear_recs)
      ultimately show ?thesis by blast
    qed
  qed
qed

lemma remove_okD:
  assumes "remove_ok rk n" and "ranked rk s" and "4 * rk r + 1 \<le> n"
  obtains e s' where "remove n E r b s = Some (e, s')"
    and "\<And>x. rk r \<le> rk x \<Longrightarrow> md (recs s' x) = md (recs s x)"
  using assms unfolding remove_ok_def by meson

lemma rest_okD:
  assumes "rest_ok rk n" and "ranked rk s" and "4 * rk (rec_of (hdls s h)) + 2 \<le> n"
  obtains e s' where "mut_release_rest n E h s = Some (e, s')"
    and "\<And>x. rk (rec_of (hdls s h)) \<le> rk x \<Longrightarrow> md (recs s' x) = md (recs s x)"
  using assms unfolding rest_ok_def by meson

lemma mut_okD:
  assumes "mut_ok rk n" and "ranked rk s" and "4 * rk (rec_of (hdls s h)) + 3 \<le> n"
  obtains e s' where "mut_release n E h s = Some (e, s')"
    and "\<And>x. rk (rec_of (hdls s h)) \<le> rk x \<Longrightarrow> x \<noteq> rec_of (hdls s h) \<Longrightarrow> md (recs s' x) = md (recs s x)"
  using assms unfolding mut_ok_def by meson

lemma rest_step:
  assumes imm: "imm_ok rk n" and rem: "remove_ok rk n" and r: "ranked rk s"
    and f: "4 * rk (rec_of (hdls s h)) + 2 \<le> Suc n"
  shows "\<exists>e s'. mut_release_rest (Suc n) E h s = Some (e, s')
        \<and> (\<forall>x. rk (rec_of (hdls s h)) \<le> rk x \<longrightarrow> md (recs s' x) = md (recs s x))"
proof -
  let ?r = "rec_of (hdls s h)"
  from f have f1: "4 * rk ?r + 1 \<le> n" by simp
  show ?thesis
  proof (cases "parent (recs s ?r)")
    case None
    from remove_okD [OF rem r f1, of E True] obtain e s' where
      "remove n E ?r True s = Some (e, s')"
      "\<And>x. rk ?r \<le> rk x \<Longrightarrow> md (recs s' x) = md (recs s x)" by blast
    with None show ?thesis by (simp add: Let_def)
  next
    case (Some p)
    from ranked_parent [OF r Some] have lt: "rk (rec_of (hdls s p)) < rk ?r" .
    with f have "4 * rk (rec_of (hdls s p)) + 4 \<le> n" by simp
    from imm_okD [OF imm r this, of E] obtain e1 s1 where
      i: "imm_release n E p s = Some (e1, s1)"
      and fr: "\<And>x. rk (rec_of (hdls s p)) < rk x \<Longrightarrow> md (recs s1 x) = md (recs s x)"
      by blast
    have fr1: "\<And>x. rk ?r \<le> rk x \<Longrightarrow> md (recs s1 x) = md (recs s x)"
      using fr lt by simp
    show ?thesis
    proof (cases e1)
      case (Some x)
      with i \<open>parent (recs s ?r) = Some p\<close>
      have "mut_release_rest (Suc n) E h s = Some (Some x, s1)" by (simp add: Let_def)
      with fr1 show ?thesis by simp
    next
      case None
      from imm_release_shape [OF i] have sh: "shape_of s1 = shape_of s" .
      from r ranked_shape [OF sh, of rk] have r1: "ranked rk s1" by simp
      from remove_okD [OF rem r1 f1, of E True] obtain e s' where
        m: "remove n E ?r True s1 = Some (e, s')"
        and fr2: "\<And>x. rk ?r \<le> rk x \<Longrightarrow> md (recs s' x) = md (recs s1 x)" by blast
      from i None m \<open>parent (recs s ?r) = Some p\<close>
      have "mut_release_rest (Suc n) E h s = Some (e, s')" by (simp add: Let_def)
      with fr1 fr2 show ?thesis by simp
    qed
  qed
qed

lemma mut_step:
  assumes rem: "remove_ok rk n" and rest: "rest_ok rk n" and r: "ranked rk s"
    and f: "4 * rk (rec_of (hdls s h)) + 3 \<le> Suc n"
  shows "\<exists>e s'. mut_release (Suc n) E h s = Some (e, s')
        \<and> (\<forall>x. rk (rec_of (hdls s h)) \<le> rk x \<and> x \<noteq> rec_of (hdls s h)
               \<longrightarrow> md (recs s' x) = md (recs s x))"
proof -
  let ?r = "rec_of (hdls s h)"
  let ?s1 = "upd_rec ?r (\<lambda>c. c\<lparr>cr_refs := removeAll h (cr_refs c)\<rparr>) s"
  have r1: "ranked rk ?s1" using r ranked_shape [of ?s1 s rk] by simp
  have h1: "rec_of (hdls ?s1 h) = ?r" by simp
  have m1: "\<And>x. md (recs ?s1 x) = md (recs s x)" by simp
  from f have f2: "4 * rk (rec_of (hdls ?s1 h)) + 2 \<le> n" by simp
  have t: "\<forall>x. rk ?r \<le> rk x \<and> x \<noteq> ?r \<longrightarrow> md (recs (touch E h ?s1) x) = md (recs s x)"
    using touch_md [of _ ?s1 h E] by simp
  show ?thesis
  proof (cases "getCachePolicy (md (recs ?s1 ?r)) \<noteq> cachePolicyRetain")
    case False
    then have "mut_release (Suc n) E h s = Some (None, touch E h ?s1)" by (simp add: Let_def)
    with t show ?thesis by simp
  next
    case True
    show ?thesis
    proof (cases "equalImmutable (recs ?s1 ?r)")
      case None
      from rest_okD [OF rest r1 f2, of E] obtain e s' where
        m: "mut_release_rest n E h ?s1 = Some (e, s')"
        and fr: "\<And>x. rk (rec_of (hdls ?s1 h)) \<le> rk x \<Longrightarrow> md (recs s' x) = md (recs ?s1 x)" by blast
      from True None m have "mut_release (Suc n) E h s = Some (e, s')" by (simp add: Let_def)
      moreover from fr have "\<forall>x. rk ?r \<le> rk x \<and> x \<noteq> ?r \<longrightarrow> md (recs s' x) = md (recs s x)"
        by simp
      ultimately show ?thesis by blast
    next
      case (Some i)
      let ?ri = "rec_of (hdls ?s1 i)"
      show ?thesis
      proof (cases "getCachePolicy (md (recs ?s1 ?ri)) = cachePolicyRetain")
        case k: True
        with True Some have "mut_release (Suc n) E h s = Some (None, touch E h ?s1)"
          by (simp add: Let_def)
        with t show ?thesis by simp
      next
        case k: False
        from ranked_equalImmutable [OF r1 Some] have le: "rk ?ri \<le> rk ?r" .
        with f have "4 * rk ?ri + 1 \<le> n" by simp
        from remove_okD [OF rem r1 this, of E False] obtain e2 s2 where
          m: "remove n E ?ri False ?s1 = Some (e2, s2)"
          and fr: "\<And>x. rk ?ri \<le> rk x \<Longrightarrow> md (recs s2 x) = md (recs ?s1 x)" by blast
        have fr1: "\<And>x. rk ?r \<le> rk x \<Longrightarrow> md (recs s2 x) = md (recs s x)"
          using fr le by simp
        show ?thesis
        proof (cases e2)
          case (Some x)
          with True \<open>equalImmutable (recs ?s1 ?r) = Some i\<close> k m
          have "mut_release (Suc n) E h s = Some (Some x, s2)" by (simp add: Let_def)
          with fr1 show ?thesis by simp
        next
          case None
          from remove_shape [OF m] have sh: "shape_of s2 = shape_of s" by simp
          from r ranked_shape [OF sh, of rk] have r2: "ranked rk s2" by simp
          from shape_of_fields [OF sh, of _ h] have h2: "rec_of (hdls s2 h) = ?r" by simp
          with f have "4 * rk (rec_of (hdls s2 h)) + 2 \<le> n" by simp
          from rest_okD [OF rest r2 this, of E] h2 obtain e s' where
            m2: "mut_release_rest n E h s2 = Some (e, s')"
            and fr2: "\<And>x. rk ?r \<le> rk x \<Longrightarrow> md (recs s' x) = md (recs s2 x)" by auto
          from True \<open>equalImmutable (recs ?s1 ?r) = Some i\<close> k m None m2
          have "mut_release (Suc n) E h s = Some (e, s')" by (simp add: Let_def)
          with fr1 fr2 show ?thesis by simp
        qed
      qed
    qed
  qed
qed

lemma imm_step:
  assumes mut: "mut_ok rk n" and r: "ranked rk s"
    and f: "4 * rk (rec_of (hdls s h)) + 4 \<le> Suc n"
  shows "\<exists>e s'. imm_release (Suc n) E h s = Some (e, s')
        \<and> (\<forall>x. rk (rec_of (hdls s h)) \<le> rk x \<and> x \<noteq> rec_of (hdls s h)
               \<and> (\<forall>m. equalMutable (recs s (rec_of (hdls s h))) = Some m \<longrightarrow> x \<noteq> rec_of (hdls s m))
               \<longrightarrow> md (recs s' x) = md (recs s x))
        \<and> md (recs s' (rec_of (hdls s h)))
            = (if last_trigger s h
               then updateLastUsed_md (time_Now E (c_calls s)) (md (recs s (rec_of (hdls s h))))
               else md (recs s (rec_of (hdls s h))))"
proof -
  let ?r = "rec_of (hdls s h)"
  let ?s1 = "upd_rec ?r (\<lambda>c. c\<lparr>cr_refs := removeAll h (cr_refs c)\<rparr>) s"
  let ?s2 = "(if updateLastUsedNow ?s1 h then
                (case equalMutable (recs ?s1 ?r) of
                   None \<Rightarrow> stamp E ?r ?s1
                 | Some m \<Rightarrow> upd_hdl m (\<lambda>x. x\<lparr>triggerLastUsed := True\<rparr>) (stamp E ?r ?s1))
              else ?s1)"
  let ?own = "if last_trigger s h
               then updateLastUsed_md (time_Now E (c_calls s)) (md (recs s ?r))
               else md (recs s ?r)"
  have u: "updateLastUsedNow ?s1 h = last_trigger s h"
    by (simp add: updateLastUsedNow_def last_trigger_def)
  have sh2: "shape_of ?s2 = shape_of s" by (simp split: option.splits)
  have o2: "\<And>x. x \<noteq> ?r \<Longrightarrow> md (recs ?s2 x) = md (recs s x)" by (simp split: option.splits)
  have w2: "md (recs ?s2 ?r) = ?own" unfolding u by (simp split: option.splits)
  show ?thesis
  proof (cases "length (cr_refs (recs ?s2 ?r)) = 0")
    case False
    then have "imm_release (Suc n) E h s = Some (None, ?s2)" by (simp add: Let_def)
    with o2 w2 show ?thesis by simp
  next
    case True
    obtain e3 s3 where v: "release_view E ?r ?s2 = (e3, s3)" by (cases "release_view E ?r ?s2")
    from v have sh3: "shape_of s3 = shape_of s"
      using shape_of_release_view [of E ?r ?s2] sh2 by simp
    from release_view_md [OF v] o2 w2
    have o3: "\<And>x. x \<noteq> ?r \<Longrightarrow> md (recs s3 x) = md (recs s x)" and w3: "md (recs s3 ?r) = ?own"
      by simp_all
    show ?thesis
    proof (cases e3)
      case (Some x)
      with True v have "imm_release (Suc n) E h s = Some (Some x, s3)" by (simp add: Let_def)
      with o3 w3 show ?thesis by simp
    next
      case None
      show ?thesis
      proof (cases "equalMutable (recs s3 ?r)")
        case n2: None
        with True v None have "imm_release (Suc n) E h s = Some (None, s3)" by (simp add: Let_def)
        with o3 w3 show ?thesis by simp
      next
        case (Some m)
        from r ranked_shape [OF sh3, of rk] have r3: "ranked rk s3" by simp
        from ranked_equalMutable [OF r3 Some]
        have le: "rk (rec_of (hdls s3 m)) \<le> rk ?r" and ne: "rec_of (hdls s3 m) \<noteq> ?r" by simp_all
        from le f have "4 * rk (rec_of (hdls s3 m)) + 3 \<le> n" by simp
        from mut_okD [OF mut r3 this, of E] obtain e4 s4 where
          m4: "mut_release n E m s3 = Some (e4, s4)"
          and fr: "\<And>x. rk (rec_of (hdls s3 m)) \<le> rk x \<Longrightarrow> x \<noteq> rec_of (hdls s3 m)
                     \<Longrightarrow> md (recs s4 x) = md (recs s3 x)" by blast
        from True v None Some m4 have res: "imm_release (Suc n) E h s = Some (None, s4)"
          by (simp add: Let_def)
        from shape_of_fields [OF sh3, of ?r m] Some
        have em: "equalMutable (recs s ?r) = Some m" and hm: "rec_of (hdls s3 m) = rec_of (hdls s m)"
          by simp_all
        have "md (recs s4 ?r) = ?own" using fr [of ?r] le ne w3 by simp
        moreover have "\<forall>x. rk ?r \<le> rk x \<and> x \<noteq> ?r
               \<and> (\<forall>m. equalMutable (recs s ?r) = Some m \<longrightarrow> x \<noteq> rec_of (hdls s m))
               \<longrightarrow> md (recs s4 x) = md (recs s x)"
        proof (intro allI impI)
          fix x assume a: "rk ?r \<le> rk x \<and> x \<noteq> ?r
               \<and> (\<forall>m. equalMutable (recs s ?r) = Some m \<longrightarrow> x \<noteq> rec_of (hdls s m))"
          with em hm have "x \<noteq> rec_of (hdls s3 m)" by simp
          moreover from a le have "rk (rec_of (hdls s3 m)) \<le> rk x" by simp
          ultimately have "md (recs s4 x) = md (recs s3 x)" by (simp add: fr)
          with o3 a show "md (recs s4 x) = md (recs s x)" by simp
        qed
        ultimately show ?thesis using res by simp
      qed
    qed
  qed
qed

lemma release_ok: "imm_ok rk n \<and> mut_ok rk n \<and> rest_ok rk n \<and> remove_ok rk n"
proof (induction n)
  case 0
  show ?case by (simp add: imm_ok_def mut_ok_def rest_ok_def remove_ok_def)
next
  case (Suc n)
  then have i: "imm_ok rk n" and m: "mut_ok rk n" and t: "rest_ok rk n" and v: "remove_ok rk n"
    by simp_all
  have "imm_ok rk (Suc n)"
    unfolding imm_ok_def using imm_step [OF m] by blast
  moreover have "mut_ok rk (Suc n)"
    unfolding mut_ok_def using mut_step [OF v t] by blast
  moreover have "rest_ok rk (Suc n)"
    unfolding rest_ok_def using rest_step [OF i v] by blast
  moreover have "remove_ok rk (Suc n)"
    unfolding remove_ok_def using remove_step [OF i] by blast
  ultimately show ?case by simp
qed

lemma imm_release_last_used:
  assumes "ranked rk s" and "4 * rk (rec_of (hdls s sr)) + 4 \<le> n"
  shows "\<exists>e s'. imm_release n E sr s = Some (e, s')
      \<and> md (recs s' (rec_of (hdls s sr)))
            = (if last_trigger s sr
               then updateLastUsed_md (time_Now E (c_calls s)) (md (recs s (rec_of (hdls s sr))))
               else md (recs s (rec_of (hdls s sr))))"
proof -
  from assms(2) obtain k where n: "n = Suc k" by (cases n) auto
  have "mut_ok rk k" using release_ok [of rk k] by simp
  from imm_step [OF this assms(1), of sr E] assms(2) n show ?thesis by blast
qed

lemma Clone_facts:
  "fst (Clone sr s) = next_hid s"
  "hdls (snd (Clone sr s)) = (hdls s)(next_hid s := \<lparr>rec_of = rec_of (hdls s sr), triggerLastUsed = False\<rparr>)"
  "recs (snd (Clone sr s)) = (recs s)(rec_of (hdls s sr) :=
      (recs s (rec_of (hdls s sr)))\<lparr>cr_refs := cr_refs (recs s (rec_of (hdls s sr))) @ [next_hid s]\<rparr>)"
  "c_calls (snd (Clone sr s)) = c_calls s"
  by (simp_all add: Clone_def ref_cr_def Let_def)

lemma ranked_Clone:
  assumes "ranked rk s" and "fresh_next s"
  shows "ranked rk (snd (Clone sr s))"
  using assms unfolding ranked_def fresh_next_def Clone_facts
  by (auto simp: fun_upd_apply)

text \<open>
  C7. \<open>Clone\<close> returns a handle on the same record whose trigger flag is not set.
  Releasing it returns and leaves the record's last-used stamp (count and time) as it
  was. In general, in a store with well-founded pointers, the release of an immutable
  handle returns, and the last-used stamp of its record afterwards is the stamp before,
  unless the handle triggers and no other handle of the record does: then the use is
  counted once and the time is the time of the call. (The cascade of releases that
  follows when the record has no handle left writes only to other records.)
\<close>

theorem clone_handle_release_keeps_last_used:
  assumes "ranked rk s" and "fresh_next s" and "4 * rk (rec_of (hdls s sr)) + 4 \<le> n"
  shows "\<not> triggerLastUsed (hdls (snd (Clone sr s)) (fst (Clone sr s)))
     \<and> rec_of (hdls (snd (Clone sr s)) (fst (Clone sr s))) = rec_of (hdls s sr)
     \<and> (\<exists>e s'. imm_release n E (fst (Clone sr s)) (snd (Clone sr s)) = Some (e, s')
           \<and> last_used (rec_of (hdls s sr)) s' = last_used (rec_of (hdls s sr)) s)
     \<and> (\<exists>e s'. imm_release n E sr s = Some (e, s')
           \<and> last_used (rec_of (hdls s sr)) s'
               = (if last_trigger s sr
                  then (Suc (md_UsageCount (md (recs s (rec_of (hdls s sr))))), Some (time_Now E (c_calls s)))
                  else last_used (rec_of (hdls s sr)) s))"
proof -
  let ?r = "rec_of (hdls s sr)"
  let ?c = "fst (Clone sr s)" and ?s1 = "snd (Clone sr s)"
  have t: "\<not> triggerLastUsed (hdls ?s1 ?c)" and rc: "rec_of (hdls ?s1 ?c) = ?r"
    by (simp_all add: Clone_facts)
  from t have nl: "\<not> last_trigger ?s1 ?c" by (simp add: last_trigger_def)
  have r1: "ranked rk ?s1" using assms(1,2) by (rule ranked_Clone)
  from assms(3) rc have "4 * rk (rec_of (hdls ?s1 ?c)) + 4 \<le> n" by simp
  from imm_release_last_used [OF r1 this, of E] nl rc obtain e s' where
    a: "imm_release n E ?c ?s1 = Some (e, s')" and "md (recs s' ?r) = md (recs ?s1 ?r)"
    by auto
  then have "last_used ?r s' = last_used ?r s"
    by (simp add: last_used_def Clone_facts)
  with a have 1: "\<exists>e s'. imm_release n E ?c ?s1 = Some (e, s') \<and> last_used ?r s' = last_used ?r s"
    by blast
  from imm_release_last_used [OF assms(1,3), of E] obtain e2 s2 where
    b: "imm_release n E sr s = Some (e2, s2)"
    and "md (recs s2 ?r) = (if last_trigger s sr
               then updateLastUsed_md (time_Now E (c_calls s)) (md (recs s ?r))
               else md (recs s ?r))"
    by blast
  then have "last_used ?r s2 = (if last_trigger s sr
                  then (Suc (md_UsageCount (md (recs s ?r))), Some (time_Now E (c_calls s)))
                  else last_used ?r s)"
    by (simp add: last_used_def updateLastUsed_md_def)
  with b have 2: "\<exists>e s'. imm_release n E sr s = Some (e, s')
           \<and> last_used ?r s' = (if last_trigger s sr
                  then (Suc (md_UsageCount (md (recs s ?r))), Some (time_Now E (c_calls s)))
                  else last_used ?r s)"
    by blast
  from t rc 1 2 show ?thesis by blast
qed

theorem clone_handle_release_keeps_last_used_witness:
  "ranked rank3 store3 \<and> fresh_next store3 \<and> fst (Clone 30 store3) = 31
   \<and> map_option (last_used 2 \<circ> snd) (imm_release 8 ok_cache_env 31 (snd (Clone 30 store3)))
       = Some (0, None)
   \<and> last_trigger store3 30
   \<and> map_option (last_used 2 \<circ> snd) (imm_release 8 ok_cache_env 30 store3) = Some (1, Some 100)"
proof -
  have r: "ranked rank3 store3"
    unfolding ranked_def by (auto simp: store3_def no_record_def rank3_def split: if_splits)
  have f: "fresh_next store3"
    by (simp add: fresh_next_def store3_def no_record_def)
  have h: "rec_of (hdls store3 30) = 2" by (simp add: store3_def)
  have n: "4 * rank3 (rec_of (hdls store3 30)) + 4 \<le> 8" by (simp add: h rank3_def)
  have c: "fst (Clone 30 store3) = 31" by (simp add: Clone_facts store3_def)
  have l: "last_trigger store3 30" by (simp add: last_trigger_def store3_def no_record_def)
  have u: "last_used 2 store3 = (0, None)"
    by (simp add: last_used_def store3_def no_record_def item_def)
  have t: "time_Now ok_cache_env (c_calls store3) = 100" by (simp add: ok_cache_env_def store3_def)
  from clone_handle_release_keeps_last_used [OF r f n, of ok_cache_env] obtain e1 s1 e2 s2 where
    a: "imm_release 8 ok_cache_env (fst (Clone 30 store3)) (snd (Clone 30 store3)) = Some (e1, s1)"
       "last_used (rec_of (hdls store3 30)) s1 = last_used (rec_of (hdls store3 30)) store3"
    and b: "imm_release 8 ok_cache_env 30 store3 = Some (e2, s2)"
       "last_used (rec_of (hdls store3 30)) s2
          = (if last_trigger store3 30
             then (Suc (md_UsageCount (md (recs store3 (rec_of (hdls store3 30))))),
                   Some (time_Now ok_cache_env (c_calls store3)))
             else last_used (rec_of (hdls store3 30)) store3)"
    by blast
  from a c h u have 1: "map_option (last_used 2 \<circ> snd) (imm_release 8 ok_cache_env 31 (snd (Clone 30 store3)))
       = Some (0, None)" by simp
  from b l h t have 2: "map_option (last_used 2 \<circ> snd) (imm_release 8 ok_cache_env 30 store3) = Some (1, Some 100)"
    by (simp add: store3_def no_record_def item_def)
  from r f c l 1 2 show ?thesis by simp
qed

end
